theory Spec2Isabelle
  imports Complex_Main "HOL-Library.Word" "HOL-Library.Log_Nat" "HOL-Library.Multiset"
    "HOL-Library.Sublist" "HOL-Library.Char_ord" "HOL-Library.List_Lexorder"
    "HOL-Library.Product_Lexorder"
begin

section \<open>The dashboard page of Focus Flow\<close>

text \<open>
  The development follows \<^verbatim>\<open>src/frontend/src/pages/DashboardPage.js\<close>.

  Conventions of the embedding.
  \<^item> An instant is a number of milliseconds since the epoch, an \<^typ>\<open>int\<close>, and so
    is a count. JavaScript numbers are IEEE doubles, and the arithmetic of the page
    is modelled with their rounding (\<open>fl64\<close>, \<open>dbl\<close>): in the offset of the clocks
    and the countdown, whose differences of instants can pass \<open>2^53\<close>, in the
    countdown format, which takes any number, and in the percentages, whose
    quotients are not integers. Only \<open>daysElapsedInWeek\<close> is written with exact
    integers: a sum or difference of instants is rounded only when it reaches \<open>2^53\<close>
    in magnitude, and the number of days, then in the millions, is clamped to 0 or
    to 7 either way.
  \<^item> \<^verbatim>\<open>Date.parse\<close> is the platform's parser. It is a parameter \<open>parse\<close> of every
    function that calls it; \<open>None\<close> stands for \<^verbatim>\<open>NaN\<close>.
  \<^item> A field of a JSON payload that may be missing, \<^verbatim>\<open>null\<close> or \<^verbatim>\<open>undefined\<close>
    is an \<open>option\<close>; the empty string is falsy as in JavaScript. Identifiers are
    strings, as the specification has them.
\<close>

subsection \<open>Payloads\<close>

type_synonym instant = int

datatype error = NetworkError | RangeError

record countdown =
  now :: "string option"
  day_end :: "string option"
  week_end :: "string option"
  month_end :: "string option"

record entry =
  user_id :: string
  score :: "int option"
  rank :: int

record leaderboard =
  week_start :: "string option"
  week_end_iso :: "string option"
  entries :: "entry list"

record breakdown =
  completed :: "int option"
  missed :: "int option"
  skipped :: "int option"

record dashboard =
  completion_breakdown :: "breakdown option"

text \<open>
  The goal of a habit is read with \<^verbatim>\<open>Number(h.goal || 7)\<close>, which accepts any value:
  it is kept as the JSON value it is, a number, a string, a boolean, or \<open>JNull\<close> when
  it is missing, \<^verbatim>\<open>null\<close> or \<^verbatim>\<open>undefined\<close> (an array or an object is left out).
\<close>

datatype json = JNull | JNumber rat | JString string | JBool bool

record habit =
  habit_key :: string
  goal :: json

record log =
  status :: "string option"
  habit_id :: "string option"

subsection \<open>Double arithmetic\<close>

text \<open>
  Where a quotient need not be an integer of the safe range, the rounding of double
  arithmetic shows: \<^verbatim>\<open>29 / 200 * 100\<close> is a little less than \<open>14.5\<close> and rounds to
  \<open>14\<close>. \<open>fl64\<close> rounds a rational to the nearest double, ties to even (the numbers
  met here are far from overflow and underflow): \<open>expo\<close> is the exponent of the binade
  of a positive number, and the significand has 53 bits.
\<close>

definition expo :: "rat \<Rightarrow> int" where
  "expo q = (if 1 \<le> q then bitlen \<lfloor>q\<rfloor> - 1 else - bitlen (\<lceil>1 / q\<rceil> - 1))"

definition rne :: "rat \<Rightarrow> int" where
  "rne y = (let f = \<lfloor>y\<rfloor>; d = y - of_int f
            in if d < 1 / 2 then f else if 1 / 2 < d then f + 1 else if even f then f else f + 1)"

definition fl64 :: "rat \<Rightarrow> rat" where
  "fl64 x = (if x = 0 then 0
             else let u = 2 powi (expo \<bar>x\<bar> - 52) in sgn x * (of_int (rne (\<bar>x\<bar> / u)) * u))"

text \<open>
  \<^verbatim>\<open>a / b\<close> and \<^verbatim>\<open>a * b\<close> on finite numbers. A division by zero gives an infinity
  or \<^verbatim>\<open>NaN\<close>, which is \<open>None\<close> here. \<^verbatim>\<open>Math.round\<close> rounds to the nearest integer,
  a tie towards \<open>+\<infinity>\<close>.
\<close>

definition js_div :: "rat \<Rightarrow> rat \<Rightarrow> rat option" where
  "js_div a b = (if b = 0 then None else Some (fl64 (a / b)))"

definition js_mul :: "rat \<Rightarrow> rat \<Rightarrow> rat" where
  "js_mul a b = fl64 (a * b)"

definition Math_round :: "rat \<Rightarrow> int" where
  "Math_round x = \<lfloor>x + 1 / 2\<rfloor>"

text \<open>\<^verbatim>\<open>Math.floor(a / b)\<close> for integers \<open>a\<close> and \<open>b\<close>, \<open>b\<close> not zero.\<close>

definition Math_floor_div :: "int \<Rightarrow> int \<Rightarrow> int" where
  "Math_floor_div a b = \<lfloor>fl64 (of_int a / of_int b)\<rfloor>"

text \<open>
  The sum or difference of two doubles that are integers is the double nearest to the
  exact integer result \<open>n\<close>, again an integer (lemma \<open>dbl_integer\<close>): it is \<open>n\<close> itself
  up to \<open>2^53\<close> in magnitude, and beyond that the nearest multiple of the spacing.
\<close>

definition dbl :: "int \<Rightarrow> int" where
  "dbl n = \<lfloor>fl64 (of_int n)\<rfloor>"

subsection \<open>The state of the page and the fetch\<close>

text \<open>
  The \<^verbatim>\<open>useState\<close> cells of \<^verbatim>\<open>DashboardPage\<close>, with the console as the list of
  errors written to it by \<^verbatim>\<open>console.error\<close>.
\<close>

record page =
  loading :: bool
  data :: "dashboard option"
  leaderboard_st :: "leaderboard option"
  countdown_st :: "countdown option"
  habits :: "habit list"
  weekLogs :: "log list"
  serverOffsetMs :: int
  console :: "error list"

definition initial :: page where
  "initial = \<lparr> loading = True, data = None, leaderboard_st = None, countdown_st = None,
     habits = [], weekLogs = [], serverOffsetMs = 0, console = [] \<rparr>"

text \<open>
  The responses of the backend: an axios call rejects (\<open>Inl\<close>) or resolves with a
  response whose \<^verbatim>\<open>data\<close> may be absent. \<^verbatim>\<open>Promise.all\<close> rejects with the error
  of a call that failed; the model takes the first in the order of the array.
\<close>

record responses =
  dashboardRes :: "error + dashboard option"
  leaderboardRes :: "error + leaderboard option"
  countdownRes :: "error + countdown option"
  habitsRes :: "error + habit list option"
  logsRes :: "error + log list option"

definition promise_all :: "responses \<Rightarrow>
    error + (dashboard option \<times> leaderboard option \<times> countdown option \<times> habit list option)" where
  "promise_all r =
     (case dashboardRes r of Inl e \<Rightarrow> Inl e | Inr d \<Rightarrow>
     (case leaderboardRes r of Inl e \<Rightarrow> Inl e | Inr l \<Rightarrow>
     (case countdownRes r of Inl e \<Rightarrow> Inl e | Inr c \<Rightarrow>
     (case habitsRes r of Inl e \<Rightarrow> Inl e | Inr h \<Rightarrow> Inr (d, l, c, h)))))"

text \<open>
  \<^verbatim>\<open>iso ? new Date(iso).toISOString().slice(0, 10) : null\<close>: \<^verbatim>\<open>toISOString\<close> throws a
  \<^verbatim>\<open>RangeError\<close> on an invalid date, and otherwise gives a nonempty date key, which
  the model represents by the instant it was read from.
\<close>

definition isoDate :: "(string \<Rightarrow> instant option) \<Rightarrow> string option \<Rightarrow> error + instant option" where
  "isoDate parse v =
     (case v of
        None \<Rightarrow> Inr None
      | Some s \<Rightarrow>
          if s = [] then Inr None
          else (case parse s of None \<Rightarrow> Inl RangeError | Some t \<Rightarrow> Inr (Some t)))"

text \<open>
  The body of the \<^verbatim>\<open>try\<close> block of \<^verbatim>\<open>fetchDashboardData\<close>, as a function from the
  state to the state reached when it ends, together with the exception that ended it
  if one did. The setters that ran before an exception keep their effect.
  \<open>clientNow\<close> is \<^verbatim>\<open>Date.now()\<close> when the offset is computed.
\<close>

definition try_block :: "(string \<Rightarrow> instant option) \<Rightarrow> responses \<Rightarrow> instant \<Rightarrow> page \<Rightarrow> error option \<times> page" where
  "try_block parse r clientNow st =
     (case promise_all r of
        Inl e \<Rightarrow> (Some e, st)
      | Inr (d, l, c, h) \<Rightarrow>
          let st1 = st\<lparr> data := d, leaderboard_st := l \<rparr> in
          (case isoDate parse (case l of None \<Rightarrow> None | Some lb \<Rightarrow> week_start lb) of
             Inl e \<Rightarrow> (Some e, st1)
           | Inr weekStartDate \<Rightarrow>
          (case isoDate parse (case l of None \<Rightarrow> None | Some lb \<Rightarrow> week_end_iso lb) of
             Inl e \<Rightarrow> (Some e, st1)
           | Inr weekEndDate \<Rightarrow>
          (case (if weekStartDate \<noteq> None \<and> weekEndDate \<noteq> None
                 then (case logsRes r of
                         Inl e \<Rightarrow> Inl e
                       | Inr ls \<Rightarrow> Inr (st1\<lparr> weekLogs := (case ls of Some xs \<Rightarrow> xs | None \<Rightarrow> []) \<rparr>))
                 else Inr (st1\<lparr> weekLogs := [] \<rparr>)) of
             Inl e \<Rightarrow> (Some e, st1)
           | Inr st2 \<Rightarrow>
               let st3 = st2\<lparr> habits := (case h of Some xs \<Rightarrow> xs | None \<Rightarrow> []) \<rparr>;
                   serverNowMs = (case c of None \<Rightarrow> None
                                  | Some cd \<Rightarrow> (case now cd of None \<Rightarrow> None | Some s \<Rightarrow> parse s));
                   st4 = (case serverNowMs of
                            Some t \<Rightarrow> st3\<lparr> serverOffsetMs := dbl (t - clientNow) \<rparr>
                          | None \<Rightarrow> st3)
               in (None, st4\<lparr> countdown_st := c \<rparr>)))))"

text \<open>
  \<^verbatim>\<open>fetchDashboardData\<close>: the \<^verbatim>\<open>catch\<close> clause writes the exception to the console
  and the \<^verbatim>\<open>finally\<close> clause clears \<open>loading\<close>. The first component is how the
  promise the function returns settles: \<open>Inl\<close> rejected, \<open>Inr\<close> fulfilled.
\<close>

definition fetchDashboardData :: "(string \<Rightarrow> instant option) \<Rightarrow> responses \<Rightarrow> instant \<Rightarrow> page \<Rightarrow> (error + unit) \<times> page" where
  "fetchDashboardData parse r clientNow st =
     (case try_block parse r clientNow st of
        (None, st') \<Rightarrow> (Inr (), st'\<lparr> loading := False \<rparr>)
      | (Some e, st') \<Rightarrow> (Inr (), st'\<lparr> console := console st' @ [e], loading := False \<rparr>))"

subsection \<open>Derived values of a render\<close>






definition weekStartIso :: "page \<Rightarrow> string option" where
  "weekStartIso st = (case leaderboard_st st of None \<Rightarrow> None | Some lb \<Rightarrow> week_start lb)"

definition daysElapsedInWeek :: "(string \<Rightarrow> instant option) \<Rightarrow> page \<Rightarrow> instant \<Rightarrow> int" where
  "daysElapsedInWeek parse st clientNow =
     (let nowMs = clientNow + serverOffsetMs st;
          startMs = (case weekStartIso st of
                       None \<Rightarrow> None
                     | Some w \<Rightarrow> if w = [] then None else parse w)
      in case startMs of
           None \<Rightarrow> 0
         | Some s \<Rightarrow> let diffDays = (nowMs - s) div 86400000 + 1 in max 0 (min 7 diffDays))"

definition totalPossibleThisWeek :: "(string \<Rightarrow> instant option) \<Rightarrow> page \<Rightarrow> instant \<Rightarrow> int" where
  "totalPossibleThisWeek parse st clientNow =
     max 1 (int (length (habits st)) * max 1 (daysElapsedInWeek parse st clientNow))"

definition or0 :: "int option \<Rightarrow> int" where
  "or0 v = (case v of None \<Rightarrow> 0 | Some n \<Rightarrow> n)"

record pie_item =
  pie_name :: string
  pie_value :: int
  color :: string

definition pieData :: "page \<Rightarrow> pie_item list" where
  "pieData st =
     (case data st of
        None \<Rightarrow> []
      | Some d \<Rightarrow>
          (case completion_breakdown d of
             None \<Rightarrow> []
           | Some b \<Rightarrow>
               filter (\<lambda>item. pie_value item > 0)
                 [ \<lparr> pie_name = ''Completed'', pie_value = or0 (completed b), color = ''#10B981'' \<rparr>,
                   \<lparr> pie_name = ''Missed'', pie_value = or0 (missed b), color = ''#EF4444'' \<rparr>,
                   \<lparr> pie_name = ''Skipped'', pie_value = or0 (skipped b), color = ''#52525B'' \<rparr> ]))"

subsection \<open>The countdown format\<close>

text \<open>
  A value passed to \<^verbatim>\<open>formatDDHHMMSS\<close>: a finite number, one of the three numbers
  that are not finite, or a value that is not a number at all (for which
  \<^verbatim>\<open>Number.isFinite\<close> is false as well). The function is total on numbers of any
  size, so its divisions are those of doubles; \<open>%\<close> is exact on doubles.
\<close>

datatype jsvalue = Num rat | NaN | PosInfinity | NegInfinity | NotNumber

definition digit :: "int \<Rightarrow> char" where
  "digit d = char_of (48 + d)"

text \<open>
  \<^verbatim>\<open>String(n)\<close> for an integer \<open>n\<close> from 0 to below \<open>2^53\<close>: its decimal digits. (A larger
  number is printed with the shortest digits that read back as the same double, and
  from \<open>10^21\<close> on with an exponent; the properties below stay under \<open>2^53\<close>.)
\<close>

function String :: "int \<Rightarrow> string" where
  "String n = (if n < 10 then [digit n] else String (n div 10) @ [digit (n mod 10)])"
  by pat_completeness auto
termination
  by (relation "measure nat") auto

definition padStart :: "nat \<Rightarrow> char \<Rightarrow> string \<Rightarrow> string" where
  "padStart n c s = replicate (n - length s) c @ s"

definition pad2 :: "int \<Rightarrow> string" where
  "pad2 n = padStart 2 (CHR ''0'') (String (max 0 n))"

definition totalSecondsOf :: "jsvalue \<Rightarrow> int" where
  "totalSecondsOf v = max 0 (case v of Num x \<Rightarrow> \<lfloor>x\<rfloor> | _ \<Rightarrow> 0)"

definition formatDDHHMMSS :: "jsvalue \<Rightarrow> string" where
  "formatDDHHMMSS totalSeconds =
     (let s = totalSecondsOf totalSeconds;
          days = Math_floor_div s 86400;
          hours = Math_floor_div (s mod 86400) 3600;
          minutes = Math_floor_div (s mod 3600) 60;
          seconds = s mod 60
      in pad2 days @ '':'' @ pad2 hours @ '':'' @ pad2 minutes @ '':'' @ pad2 seconds)"

text \<open>Reading a string of decimal digits back, to say what a component shows.\<close>

definition decimal :: "string \<Rightarrow> int" where
  "decimal cs = foldl (\<lambda>n c. 10 * n + (of_char c - 48)) 0 cs"

definition is_digit :: "char \<Rightarrow> bool" where
  "is_digit c = (48 \<le> (of_char c :: int) \<and> (of_char c :: int) \<le> 57)"

subsection \<open>Initials\<close>

text \<open>
  A JavaScript string is a sequence of UTF-16 code units. \<open>utf16\<close> writes an ASCII
  literal as one.
\<close>

type_synonym code_unit = "16 word"
type_synonym jsstring = "code_unit list"

definition utf16 :: "string \<Rightarrow> jsstring" where
  "utf16 s = map of_char s"

text \<open>
  The code units \<^verbatim>\<open>\s\<close> matches and \<^verbatim>\<open>trim\<close> removes: the white space and line
  terminators of ECMAScript.
\<close>

definition isWhiteSpace :: "code_unit \<Rightarrow> bool" where
  "isWhiteSpace c =
     (c = 0x09 \<or> c = 0x0A \<or> c = 0x0B \<or> c = 0x0C \<or> c = 0x0D \<or> c = 0x20 \<or> c = 0xA0 \<or>
      c = 0x1680 \<or> (0x2000 \<le> c \<and> c \<le> 0x200A) \<or> c = 0x2028 \<or> c = 0x2029 \<or>
      c = 0x202F \<or> c = 0x205F \<or> c = 0x3000 \<or> c = 0xFEFF)"

definition trim :: "jsstring \<Rightarrow> jsstring" where
  "trim s = rev (dropWhile isWhiteSpace (rev (dropWhile isWhiteSpace s)))"

text \<open>
  \<^verbatim>\<open>s.split(/\s+/)\<close>: the pieces between the maximal runs of white space, the empty
  pieces before a leading run and after a trailing one included.
\<close>

function split :: "jsstring \<Rightarrow> jsstring list" where
  "split s =
     (case dropWhile (\<lambda>c. \<not> isWhiteSpace c) s of
        [] \<Rightarrow> [s]
      | r # rs \<Rightarrow> takeWhile (\<lambda>c. \<not> isWhiteSpace c) s # split (dropWhile isWhiteSpace rs))"
  by pat_completeness auto
termination
proof (relation "measure length")
  fix s :: jsstring and r rs
  assume "dropWhile (\<lambda>c. \<not> isWhiteSpace c) s = r # rs"
  then have "length (r # rs) \<le> length s"
    by (metis length_dropWhile_le)
  moreover have "length (dropWhile isWhiteSpace rs) \<le> length rs"
    by (rule length_dropWhile_le)
  ultimately show "(dropWhile isWhiteSpace rs, s) \<in> measure length"
    by simp
qed simp

text \<open>
  \<^verbatim>\<open>toUpperCase\<close> maps each code unit of the Basic Latin and Latin-1 Supplement blocks
  as the Unicode case mappings say: the small letters to their capitals, the micro
  sign and \<open>y\<close> with diaeresis to capitals outside the block, and sharp s to the two
  letters \<open>SS\<close>. For a string with a code unit beyond \<open>U+00FF\<close> the platform's function
  is the parameter \<open>ext\<close>.
\<close>

definition upperLatin1 :: "code_unit \<Rightarrow> jsstring" where
  "upperLatin1 c =
     (if 0x61 \<le> c \<and> c \<le> 0x7A then [c - 0x20]
      else if c = 0xB5 then [0x39C]
      else if c = 0xDF then [0x53, 0x53]
      else if 0xE0 \<le> c \<and> c \<le> 0xFE \<and> c \<noteq> 0xF7 then [c - 0x20]
      else if c = 0xFF then [0x178]
      else [c])"

definition toUpperCase :: "(jsstring \<Rightarrow> jsstring) \<Rightarrow> jsstring \<Rightarrow> jsstring" where
  "toUpperCase ext s = (if list_all (\<lambda>c. c < 0x100) s then concat (map upperLatin1 s) else ext s)"

text \<open>
  \<^verbatim>\<open>parts[0][0] + parts[1][0]\<close>: indexing a string out of range gives \<^verbatim>\<open>undefined\<close>,
  which \<open>+\<close> turns into the text \<open>undefined\<close> beside a string; of two \<^verbatim>\<open>undefined\<close> the
  sum is \<^verbatim>\<open>NaN\<close>, which has no \<^verbatim>\<open>toUpperCase\<close>.
\<close>

datatype type_error = TypeError

definition charAt0 :: "jsstring \<Rightarrow> jsstring option" where
  "charAt0 s = (case s of [] \<Rightarrow> None | c # _ \<Rightarrow> Some [c])"

definition js_add :: "jsstring option \<Rightarrow> jsstring option \<Rightarrow> jsstring option" where
  "js_add a b =
     (case (a, b) of
        (Some x, Some y) \<Rightarrow> Some (x @ y)
      | (Some x, None) \<Rightarrow> Some (x @ utf16 ''undefined'')
      | (None, Some y) \<Rightarrow> Some (utf16 ''undefined'' @ y)
      | (None, None) \<Rightarrow> None)"

definition parts :: "jsstring option \<Rightarrow> jsstring list" where
  "parts name = filter (\<lambda>p. p \<noteq> []) (split (trim (case name of None \<Rightarrow> [] | Some s \<Rightarrow> s)))"

definition nameInitials :: "(jsstring \<Rightarrow> jsstring) \<Rightarrow> jsstring option \<Rightarrow> type_error + jsstring" where
  "nameInitials ext name =
     (case parts name of
        [] \<Rightarrow> Inr (utf16 ''U'')
      | [p] \<Rightarrow> Inr (toUpperCase ext (take 2 p))
      | p # q # _ \<Rightarrow>
          (case js_add (charAt0 p) (charAt0 q) of
             None \<Rightarrow> Inl TypeError
           | Some s \<Rightarrow> Inr (toUpperCase ext s)))"

text \<open>
  The words of a string, as the specification means them: the maximal runs of code
  units that are not white space.
\<close>

function words :: "jsstring \<Rightarrow> jsstring list" where
  "words s =
     (case dropWhile isWhiteSpace s of
        [] \<Rightarrow> []
      | c # cs \<Rightarrow> (c # takeWhile (\<lambda>c. \<not> isWhiteSpace c) cs) # words (dropWhile (\<lambda>c. \<not> isWhiteSpace c) cs))"
  by pat_completeness auto
termination
proof (relation "measure length")
  fix s :: jsstring and c cs
  assume "dropWhile isWhiteSpace s = c # cs"
  then have "length (c # cs) \<le> length s"
    by (metis length_dropWhile_le)
  moreover have "length (dropWhile (\<lambda>c. \<not> isWhiteSpace c) cs) \<le> length cs"
    by (rule length_dropWhile_le)
  ultimately show "(dropWhile (\<lambda>c. \<not> isWhiteSpace c) cs, s) \<in> measure length"
    by simp
qed simp

text \<open>The code units of ASCII.\<close>

definition isAscii :: "code_unit \<Rightarrow> bool" where
  "isAscii c = (c < 0x80)"

subsection \<open>Completed logs of the week\<close>


text \<open>
  The properties that an object literal inherits: the methods of
  \<^verbatim>\<open>Object.prototype\<close>, and the accessor \<^verbatim>\<open>__proto__\<close>.
\<close>

definition builtins :: "string list" where
  "builtins = [''constructor'', ''hasOwnProperty'', ''isPrototypeOf'', ''propertyIsEnumerable'',
     ''toLocaleString'', ''toString'', ''valueOf'', ''__defineGetter__'', ''__defineSetter__'',
     ''__lookupGetter__'', ''__lookupSetter__'']"

definition inherited :: "string list" where
  "inherited = ''__proto__'' # builtins"














subsection \<open>Percentages\<close>





text \<open>The progress bar of one entry of the leaderboard card (lines 129, 130 and 153).\<close>

definition entriesOf :: "leaderboard option \<Rightarrow> entry list" where
  "entriesOf lb = (case lb of None \<Rightarrow> [] | Some l \<Rightarrow> entries l)"

definition maxScore :: "leaderboard option \<Rightarrow> int" where
  "maxScore lb = foldl max 1 (map (\<lambda>e. or0 (score e)) (entriesOf lb))"

definition entryPct :: "leaderboard option \<Rightarrow> entry \<Rightarrow> int option" where
  "entryPct lb e =
     (case js_div (of_int (or0 (score e))) (of_int (maxScore lb)) of
        None \<Rightarrow> None
      | Some q \<Rightarrow> Some (Math_round (js_mul q 100)))"


section \<open>The leaderboard engine\<close>

text \<open>
  The leaderboard engine runs in the backend, whose code is not among the sources of
  the frontend; the frontend only calls its endpoints (\<^verbatim>\<open>src/frontend/src/lib/api.js\<close>).
  The definitions of this section follow the specification, sections 3, 4.1 and 4.5.
\<close>

subsection \<open>Windows\<close>

text \<open>
  Modelled from the spec: the Clock/TimeWindow Provider's \<^verbatim>\<open>windowFor(week, at)\<close>, which
  is missing from the sources. The configured timezone is a fixed offset \<open>tz\<close> in
  milliseconds east of UTC. A week runs from Monday 00:00:00 local time to the
  following Monday, exclusive. (Day 0 of the epoch is a Thursday.)
\<close>

record window =
  w_start :: instant
  w_end :: instant

definition dayMs :: int where
  "dayMs = 86400000"

definition windowFor_week :: "int \<Rightarrow> instant \<Rightarrow> window" where
  "windowFor_week tz t =
     (let day = (t + tz) div dayMs;
          monday = day - (day + 3) mod 7;
          start = monday * dayMs - tz
      in \<lparr> w_start = start, w_end = start + 7 * dayMs \<rparr>)"

subsection \<open>Data\<close>

text \<open>
  Modelled from the spec: \<^verbatim>\<open>HabitLog\<close> with its three statuses, \<^verbatim>\<open>LeaderboardEntry\<close>,
  \<^verbatim>\<open>LeaderboardSnapshot\<close> and the users of the identity store, missing from the
  sources. The date of a log is the number of its calendar day.
\<close>

datatype log_status = Completed | Missed | Skipped

record habit_log =
  hl_habit_id :: string
  hl_user_id :: string
  hl_date :: int
  hl_status :: log_status

record account =
  acc_id :: string
  acc_name :: string
  acc_avatar_url :: "string option"

record leaderboard_entry =
  le_user_id :: string
  le_name :: string
  le_avatar_url :: "string option"
  le_score :: nat
  le_rank :: nat

record snapshot =
  snap_week_start :: instant
  snap_week_end :: instant
  snap_entries :: "leaderboard_entry list"
  snap_reset_at :: "instant option"

subsection \<open>Ranking\<close>

text \<open>
  Modelled from the spec: \<^verbatim>\<open>computeWeekly(limit, offset)\<close>, missing from the sources.
  It recomputes the score of every user from the raw logs (the completed logs whose
  day starts inside the current week), sorts by score descending and then by user id
  ascending, gives the ranks 1, 2, ... to the whole sorted list and only then cuts the
  slice out.
\<close>

definition in_window :: "int \<Rightarrow> window \<Rightarrow> habit_log \<Rightarrow> bool" where
  "in_window tz w l = (w_start w \<le> hl_date l * dayMs - tz \<and> hl_date l * dayMs - tz < w_end w)"

definition scoreOf :: "int \<Rightarrow> window \<Rightarrow> habit_log list \<Rightarrow> account \<Rightarrow> nat" where
  "scoreOf tz w logs u =
     length (filter (\<lambda>l. hl_user_id l = acc_id u \<and> hl_status l = Completed \<and> in_window tz w l) logs)"

definition sortKey :: "account \<times> nat \<Rightarrow> int \<times> string" where
  "sortKey p = (- int (snd p), acc_id (fst p))"

definition toEntry :: "nat \<times> account \<times> nat \<Rightarrow> leaderboard_entry" where
  "toEntry p =
     (case p of (i, u, s) \<Rightarrow>
        \<lparr> le_user_id = acc_id u, le_name = acc_name u, le_avatar_url = acc_avatar_url u,
          le_score = s, le_rank = i + 1 \<rparr>)"

definition rankAll :: "int \<Rightarrow> account list \<Rightarrow> habit_log list \<Rightarrow> instant \<Rightarrow> leaderboard_entry list" where
  "rankAll tz users logs t =
     (let w = windowFor_week tz t;
          scored = map (\<lambda>u. (u, scoreOf tz w logs u)) users;
          sorted = sort_key sortKey scored
      in map toEntry (enumerate 0 sorted))"

definition computeWeekly ::
    "int \<Rightarrow> account list \<Rightarrow> habit_log list \<Rightarrow> instant \<Rightarrow> nat \<Rightarrow> nat \<Rightarrow> snapshot" where
  "computeWeekly tz users logs t limit offset =
     (let w = windowFor_week tz t
      in \<lparr> snap_week_start = w_start w, snap_week_end = w_end w,
           snap_entries = take limit (drop offset (rankAll tz users logs t)),
           snap_reset_at = None \<rparr>)"

text \<open>
  Modelled from the spec: the order between two entries, "descending by score then
  ascending by user id".
\<close>

definition before :: "leaderboard_entry \<Rightarrow> leaderboard_entry \<Rightarrow> bool" where
  "before a b = (le_score b < le_score a \<or> (le_score a = le_score b \<and> le_user_id a \<le> le_user_id b))"

subsection \<open>Reset\<close>

text \<open>
  Modelled from the spec: the state of the engine (the current snapshot and the
  history of closed ones) and \<^verbatim>\<open>reset()\<close>, missing from the sources. \<open>t\<close> is the
  clock's \<^verbatim>\<open>now()\<close> of the call. When the week of the current snapshot is not the
  week of \<open>t\<close>, the snapshot is stamped and appended to the history unless the history
  has an entry of its \<open>week_start\<close> already, and a new snapshot is opened; otherwise
  the call changes nothing. The history is kept in the order of insertion (the endpoint
  \<^verbatim>\<open>history(limit, offset)\<close> reads it from the end).
\<close>

record engine =
  current :: snapshot
  history :: "snapshot list"

record reset_result =
  rolled_over :: bool
  res_week_start :: instant

definition reset :: "int \<Rightarrow> instant \<Rightarrow> engine \<Rightarrow> reset_result \<times> engine" where
  "reset tz t st =
     (let w = windowFor_week tz t in
      if snap_week_start (current st) \<noteq> w_start w then
        let closed = (current st)\<lparr> snap_reset_at := Some t \<rparr>;
            hist = (if list_ex (\<lambda>h. snap_week_start h = snap_week_start closed) (history st)
                    then history st else history st @ [closed]);
            opened = \<lparr> snap_week_start = w_start w, snap_week_end = w_end w,
                       snap_entries = [], snap_reset_at = None \<rparr>
        in (\<lparr> rolled_over = True, res_week_start = w_start w \<rparr>,
            \<lparr> current = opened, history = hist \<rparr>)
      else (\<lparr> rolled_over = False, res_week_start = w_start w \<rparr>, st))"

text \<open>
  Modelled from the spec: "arbitrarily repeated invocation", the state after a sequence
  of calls at the instants of the list in turn, and the \<open>week_start\<close>s in the history.
\<close>

definition resets :: "int \<Rightarrow> instant list \<Rightarrow> engine \<Rightarrow> engine" where
  "resets tz ts st = foldl (\<lambda>s t. snd (reset tz t s)) st ts"

definition weeks_of :: "engine \<Rightarrow> instant list" where
  "weeks_of st = map snap_week_start (history st)"

section \<open>Formulas of the specification and sample inputs\<close>



text \<open>
  The formula is computed without rounding when the integers it goes through are
  safe, that is below \<open>2^53\<close> in magnitude: the offset, the corrected clock, and the
  difference to the end instant.
\<close>

definition safe :: "int \<Rightarrow> bool" where
  "safe n = (\<bar>n\<bar> < 2 ^ 53)"






text \<open>
  A sample of \<^verbatim>\<open>Date.parse\<close> on the instants of the first week of 2024 and on the
  last instant a date can hold, and a sample
  of the backend's responses on Wednesday 3 January 2024, five seconds past midnight
  UTC, fetched by a client whose clock is five seconds late.
\<close>

definition demo_parse :: "string \<Rightarrow> instant option" where
  "demo_parse s =
     (if s = ''2024-01-01T00:00:00Z'' then Some 1704067200000
      else if s = ''2024-01-03T00:00:05Z'' then Some 1704240005000
      else if s = ''2024-01-04T00:00:00Z'' then Some 1704326400000
      else if s = ''2024-01-08T00:00:00Z'' then Some 1704672000000
      else if s = ''2024-02-01T00:00:00Z'' then Some 1706745600000
      else if s = ''+275760-09-13T00:00:00Z'' then Some 8640000000000000
      else None)"

definition demo_countdown :: countdown where
  "demo_countdown =
     \<lparr> now = Some ''2024-01-03T00:00:05Z'', day_end = Some ''2024-01-04T00:00:00Z'',
       week_end = Some ''2024-01-08T00:00:00Z'', month_end = Some ''2024-02-01T00:00:00Z'' \<rparr>"

definition demo_leaderboard :: leaderboard where
  "demo_leaderboard =
     \<lparr> week_start = Some ''2024-01-01T00:00:00Z'', week_end_iso = Some ''2024-01-08T00:00:00Z'',
       entries = [ \<lparr> user_id = ''u1'', score = Some 6, rank = 1 \<rparr>,
                   \<lparr> user_id = ''u2'', score = Some 4, rank = 2 \<rparr>,
                   \<lparr> user_id = ''u3'', score = None, rank = 3 \<rparr> ] \<rparr>"

definition demo_habits :: "habit list" where
  "demo_habits = [ \<lparr> habit_key = ''h1'', goal = JNumber 5 \<rparr>, \<lparr> habit_key = ''h2'', goal = JNull \<rparr> ]"

definition demo_logs :: "log list" where
  "demo_logs =
     [ \<lparr> status = Some ''completed'', habit_id = Some ''h1'' \<rparr>,
       \<lparr> status = Some ''completed'', habit_id = Some ''h2'' \<rparr>,
       \<lparr> status = Some ''missed'', habit_id = Some ''h2'' \<rparr>,
       \<lparr> status = Some ''completed'', habit_id = Some ''h1'' \<rparr>,
       \<lparr> status = Some ''completed'', habit_id = None \<rparr>,
       \<lparr> status = Some ''skipped'', habit_id = Some ''h1'' \<rparr> ]"

definition demo_dashboard :: dashboard where
  "demo_dashboard =
     \<lparr> completion_breakdown = Some \<lparr> completed = Some 4, missed = Some 0, skipped = None \<rparr> \<rparr>"

definition demo_responses :: responses where
  "demo_responses =
     \<lparr> dashboardRes = Inr (Some demo_dashboard), leaderboardRes = Inr (Some demo_leaderboard),
       countdownRes = Inr (Some demo_countdown), habitsRes = Inr (Some demo_habits),
       logsRes = Inr (Some demo_logs) \<rparr>"

definition demo_page :: page where
  "demo_page = snd (fetchDashboardData demo_parse demo_responses 1704240000000 initial)"




text \<open>Responses of a backend that is down, and of one that answers with no data.\<close>

definition failed_responses :: responses where
  "failed_responses =
     \<lparr> dashboardRes = Inl NetworkError, leaderboardRes = Inl NetworkError,
       countdownRes = Inl NetworkError, habitsRes = Inl NetworkError,
       logsRes = Inl NetworkError \<rparr>"

definition empty_responses :: responses where
  "empty_responses =
     \<lparr> dashboardRes = Inr None, leaderboardRes = Inr None, countdownRes = Inr None,
       habitsRes = Inr None, logsRes = Inr None \<rparr>"









text \<open>
  An engine whose current snapshot is the first week of 2024, and the users and logs
  of the example of the specification: two users with five completions and one with
  three, a missed log and a log of the week before.
\<close>

definition demo_engine :: engine where
  "demo_engine =
     \<lparr> current = \<lparr> snap_week_start = 1704067200000, snap_week_end = 1704672000000,
                   snap_entries = [], snap_reset_at = None \<rparr>,
       history = [] \<rparr>"

definition demo_accounts :: "account list" where
  "demo_accounts =
     [ \<lparr> acc_id = ''u3'', acc_name = ''Cy'', acc_avatar_url = None \<rparr>,
       \<lparr> acc_id = ''u2'', acc_name = ''Bo'', acc_avatar_url = None \<rparr>,
       \<lparr> acc_id = ''u1'', acc_name = ''Al'', acc_avatar_url = None \<rparr> ]"

definition logged :: "string \<Rightarrow> log_status \<Rightarrow> int \<Rightarrow> habit_log" where
  "logged u s d = \<lparr> hl_habit_id = ''h'', hl_user_id = u, hl_date = d, hl_status = s \<rparr>"

definition demo_habit_logs :: "habit_log list" where
  "demo_habit_logs =
     map (logged ''u3'' Completed) [19723, 19724, 19725]
     @ map (logged ''u1'' Completed) [19723, 19724, 19725, 19726, 19727]
     @ [logged ''u3'' Missed 19726, logged ''u3'' Completed 19716]
     @ map (logged ''u2'' Completed) [19723, 19724, 19725, 19726, 19727]"

section \<open>Properties of the dashboard page\<close>

subsection \<open>Double arithmetic\<close>

text \<open>
  \<open>fl64\<close> is within half a unit in the last place, it is exact on the integers up to
  \<open>2^53\<close>, and the floor of the rounded quotient of two such integers is their integer
  quotient. The double nearest to an integer is an integer.
\<close>

lemma expo_ge1:
  assumes "1 \<le> q"
  shows "2 powi (expo q) \<le> q \<and> q < 2 powi (expo q + 1)"
proof -
  define n where "n = nat \<lfloor>q\<rfloor>"
  have n0: "0 < n" using assms by (simp add: n_def)
  have nq: "rat_of_nat n \<le> q" using assms by (simp add: n_def)
  have qn: "q < rat_of_nat n + 1" using assms by (simp add: n_def) linarith
  define L where "L = floorlog 2 n"
  have b: "2 ^ (L - 1) \<le> n \<and> n < 2 ^ L"
    unfolding L_def using floorlog_bounds[of n 2] n0 by simp
  have L0: "0 < L" using b n0 by (cases L) auto
  have e: "expo q = int L - 1" using assms by (simp add: expo_def bitlen_def n_def L_def)
  have e1: "expo q = int (L - 1)" using e L0 by simp
  have "(2::rat) ^ (L - 1) \<le> rat_of_nat n"
    using b by (metis of_nat_le_iff of_nat_numeral of_nat_power)
  then have "(2::rat) ^ (L - 1) \<le> q" using nq by (rule order_trans)
  then have lo: "2 powi (expo q) \<le> q" unfolding e1 by simp
  have "n + 1 \<le> 2 ^ L" using b by simp
  then have "rat_of_nat (n + 1) \<le> 2 ^ L"
    by (metis of_nat_le_iff of_nat_numeral of_nat_power)
  then have "q < 2 ^ L" using qn by (simp del: of_nat_add add: less_le_trans)
  then have hi: "q < 2 powi (expo q + 1)" unfolding e by simp
  show ?thesis using lo hi by simp
qed

lemma expo_lt1:
  assumes "0 < q" and "q < 1"
  shows "2 powi (expo q) \<le> q \<and> q < 2 powi (expo q + 1)"
proof -
  define r where "r = 1 / q"
  have r1: "1 < r" using assms by (simp add: r_def)
  define m where "m = nat (\<lceil>r\<rceil> - 1)"
  have c2: "2 \<le> \<lceil>r\<rceil>" using r1 by linarith
  have m0: "0 < m" using c2 by (simp add: m_def)
  have mr: "rat_of_nat m < r" using c2 unfolding m_def by (simp add: of_nat_nat) linarith
  have rm: "r \<le> rat_of_nat m + 1" using c2 unfolding m_def by (simp add: of_nat_nat)
  define k where "k = floorlog 2 m"
  have b: "2 ^ (k - 1) \<le> m \<and> m < 2 ^ k"
    unfolding k_def using floorlog_bounds[of m 2] m0 by simp
  have k0: "0 < k" using b m0 by (cases k) auto
  have e: "expo q = - int k" using assms by (simp add: expo_def bitlen_def m_def k_def r_def)
  have "m + 1 \<le> 2 ^ k" using b by simp
  then have "rat_of_nat (m + 1) \<le> 2 ^ k"
    by (metis of_nat_le_iff of_nat_numeral of_nat_power)
  then have rk: "r \<le> 2 ^ k" using rm by (simp del: of_nat_add add: order_trans)
  have "(2::rat) ^ (k - 1) \<le> rat_of_nat m"
    using b by (metis of_nat_le_iff of_nat_numeral of_nat_power)
  then have kr: "(2::rat) ^ (k - 1) < r" using mr by (rule le_less_trans)
  have lo: "2 powi (expo q) \<le> q"
  proof -
    have "1 / 2 ^ k \<le> 1 / r" using rk r1 by (simp add: frac_le)
    then show ?thesis using assms by (simp add: e r_def power_int_minus_divide)
  qed
  have hi: "q < 2 powi (expo q + 1)"
  proof -
    have "1 / r < 1 / 2 ^ (k - 1)" using kr by (simp add: frac_less2)
    moreover have "expo q + 1 = - int (k - 1)" using e k0 by simp
    ultimately show ?thesis using assms by (simp add: r_def power_int_minus_divide)
  qed
  show ?thesis using lo hi by simp
qed

lemma expo_bounds:
  assumes "0 < q"
  shows "2 powi (expo q) \<le> q \<and> q < 2 powi (expo q + 1)"
  using expo_ge1[of q] expo_lt1[of q] assms by (cases "1 \<le> q") auto

lemma rne_err: "\<bar>of_int (rne y) - y\<bar> \<le> 1 / 2"
  unfolding rne_def Let_def by (auto simp: abs_if) linarith+

lemma rne_of_int: "rne (of_int n) = n"
  by (simp add: rne_def)

lemma fl64_err: "\<bar>fl64 x - x\<bar> \<le> \<bar>x\<bar> / 2 ^ 53"
proof (cases "x = 0")
  case True
  then show ?thesis by (simp add: fl64_def)
next
  case False
  define a where "a = \<bar>x\<bar>"
  define e where "e = expo a"
  define u :: rat where "u = 2 powi (e - 52)"
  have a0: "0 < a" using False by (simp add: a_def)
  have u0: "0 < u" by (simp add: u_def)
  have ea: "2 powi e \<le> a" using expo_bounds[OF a0] by (simp add: e_def)
  have fl: "fl64 x = sgn x * (of_int (rne (a / u)) * u)"
    using False by (simp add: fl64_def a_def e_def u_def Let_def)
  have xa: "x = sgn x * a" by (simp add: a_def mult.commute flip: abs_mult_sgn)
  have "fl64 x - x = sgn x * (of_int (rne (a / u)) * u - a)"
    by (subst (2) xa) (simp add: fl algebra_simps)
  then have "\<bar>fl64 x - x\<bar> = \<bar>of_int (rne (a / u)) * u - a\<bar>"
    using False by (simp add: abs_mult abs_sgn_eq)
  also have "of_int (rne (a / u)) * u - a = (of_int (rne (a / u)) - a / u) * u"
    using u0 by (simp add: algebra_simps)
  also have "\<bar>\<dots>\<bar> = \<bar>of_int (rne (a / u)) - a / u\<bar> * u"
    using u0 by (simp add: abs_mult)
  also have "\<dots> \<le> (1 / 2) * u"
    using rne_err[of "a / u"] u0 by (intro mult_right_mono) auto
  also have "(1 / 2) * u = 2 powi e / 2 ^ 53"
    by (simp add: u_def power_int_diff)
  also have "\<dots> \<le> a / 2 ^ 53"
    using ea by (simp add: divide_right_mono)
  finally show ?thesis by (simp add: a_def)
qed

lemma fl64_of_int:
  assumes "\<bar>n\<bar> \<le> 2 ^ 53"
  shows "fl64 (of_int n) = of_int n"
proof (cases "n = 0")
  case True
  then show ?thesis by (simp add: fl64_def)
next
  case False
  define a :: rat where "a = of_int \<bar>n\<bar>"
  define e where "e = expo a"
  define u :: rat where "u = 2 powi (e - 52)"
  have a1: "1 \<le> a" using False by (simp add: a_def flip: of_int_abs)
  have a53: "a \<le> 2 ^ 53"
  proof -
    have "rat_of_int \<bar>n\<bar> \<le> rat_of_int (2 ^ 53)" using assms by (subst of_int_le_iff)
    then show ?thesis by (simp add: a_def)
  qed
  have a0: "0 < a" using a1 by simp
  have b: "2 powi e \<le> a \<and> a < 2 powi (e + 1)" using expo_bounds[OF a0] by (simp add: e_def)
  have e0: "0 \<le> e"
  proof (rule ccontr)
    assume "\<not> 0 \<le> e"
    then have "e + 1 \<le> 0" by simp
    then have "(2::rat) powi (e + 1) \<le> 2 powi 0" by (intro power_int_increasing) auto
    then show False using b a1 by simp
  qed
  have e53: "e \<le> 53"
  proof (rule ccontr)
    assume "\<not> e \<le> 53"
    then have "54 \<le> e" by simp
    then have "(2::rat) powi 54 \<le> 2 powi e" by (intro power_int_increasing) auto
    then show False using b a53 by simp
  qed
  have fl: "fl64 (of_int n) = sgn (rat_of_int n) * (of_int (rne (a / u)) * u)"
    using False by (simp add: fl64_def a_def e_def u_def Let_def)
  have xa: "rat_of_int n = sgn (rat_of_int n) * a"
    by (simp add: a_def mult.commute flip: abs_mult_sgn)
  have "\<exists>k. a / u = of_int k"
  proof (cases "e \<le> 52")
    case True
    define j where "j = nat (52 - e)"
    have "u = 1 / 2 ^ j"
      using True by (simp add: u_def j_def power_int_def field_simps)
    then have "a / u = of_int (\<bar>n\<bar> * 2 ^ j)" by (simp add: a_def)
    then show ?thesis by blast
  next
    case False
    then have e: "e = 53" using e53 by simp
    then have "a = 2 ^ 53" using b a53 by simp
    then have "a / u = of_int (2 ^ 52)" by (simp add: u_def e)
    then show ?thesis by blast
  qed
  then obtain k where k: "a / u = of_int k" by blast
  have u0: "u \<noteq> 0" by (simp add: u_def)
  have "rat_of_int (rne (a / u)) = a / u"
    unfolding k by (simp add: rne_of_int)
  then have "of_int (rne (a / u)) * u = a"
    using u0 by simp
  then show ?thesis using fl xa by simp
qed

lemma floor_fl64_div:
  assumes b: "0 < b" and a: "\<bar>a\<bar> < 2 ^ 53"
  shows "\<lfloor>fl64 (of_int a / of_int b)\<rfloor> = a div b"
proof (cases "a mod b = 0")
  case True
  then have "rat_of_int a / of_int b = of_int (a div b)"
    using b by (metis True div_mult_mod_eq add.right_neutral nonzero_mult_div_cancel_right of_int_0_eq_iff of_int_mult less_irrefl)
  moreover have "\<bar>a div b\<bar> \<le> 2 ^ 53"
  proof -
    have "\<bar>a div b\<bar> \<le> \<bar>a\<bar>"
    proof (cases "0 \<le> a")
      case True
      have "a div b \<le> a div 1" using True b by (intro zdiv_mono2) auto
      moreover have "0 \<le> a div b" using True b by (simp add: pos_imp_zdiv_nonneg_iff)
      ultimately show ?thesis using True by simp
    next
      case False
      have "a div 1 \<le> a div b" using False b by (intro zdiv_mono2_neg) auto
      moreover have "a div b < 0" using False b by (simp add: pos_imp_zdiv_neg_iff)
      ultimately show ?thesis using False by simp
    qed
    then show ?thesis using a by simp
  qed
  ultimately show ?thesis by (simp add: fl64_of_int)
next
  case False
  define q :: rat where "q = of_int a / of_int b"
  define n where "n = a div b"
  define r where "r = a mod b"
  have r1: "1 \<le> r" "r \<le> b - 1"
    using False b pos_mod_sign[of b a] pos_mod_bound[of b a] unfolding r_def by linarith+
  have "a = b * n + r" by (simp add: n_def r_def)
  then have "rat_of_int a = of_int b * of_int n + of_int r" by (metis of_int_add of_int_mult)
  then have qn: "q = of_int n + of_int r / of_int b"
    using b by (simp add: q_def field_simps)
  have b0: "0 < rat_of_int b" using b by simp
  have lo: "of_int n + 1 / of_int b \<le> q"
    unfolding qn using r1 b0 by (simp add: divide_right_mono)
  have hi: "q \<le> of_int n + 1 - 1 / of_int b"
  proof -
    have "rat_of_int r \<le> of_int b - 1" using r1 by (metis of_int_1 of_int_diff of_int_le_iff)
    then have "rat_of_int r / of_int b \<le> (of_int b - 1) / of_int b"
      using b0 by (simp add: divide_right_mono)
    also have "\<dots> = 1 - 1 / of_int b" using b0 by (simp add: field_simps)
    finally show ?thesis unfolding qn by simp
  qed
  have "\<bar>q\<bar> = \<bar>rat_of_int a\<bar> / \<bar>rat_of_int b\<bar>"
    unfolding q_def by (rule abs_divide)
  then have "\<bar>q\<bar> = of_int \<bar>a\<bar> / of_int b" using b by simp
  moreover have "rat_of_int \<bar>a\<bar> < 2 ^ 53"
    using a by (metis of_int_less_iff of_int_numeral of_int_power)
  ultimately have "\<bar>q\<bar> / 2 ^ 53 < 1 / of_int b"
    using b0 by (simp add: field_simps)
  then have err: "\<bar>fl64 q - q\<bar> < 1 / of_int b"
    using fl64_err[of q] by simp
  have "of_int n < fl64 q" using err lo by (simp add: abs_if split: if_splits)
  moreover have "fl64 q < of_int n + 1" using err hi by (simp add: abs_if split: if_splits)
  ultimately have "\<lfloor>fl64 q\<rfloor> = n" by (simp add: floor_unique)
  then show ?thesis by (simp add: q_def n_def)
qed

lemma Math_floor_div_safe:
  assumes "0 < b" and "\<bar>a\<bar> < 2 ^ 53"
  shows "Math_floor_div a b = a div b"
  unfolding Math_floor_div_def using assms by (rule floor_fl64_div)

lemma dbl_safe: "\<bar>n\<bar> \<le> 2 ^ 53 \<Longrightarrow> dbl n = n"
  unfolding dbl_def by (simp add: fl64_of_int)

lemma dbl_integer: "of_int (dbl n) = fl64 (of_int n)"
proof (cases "\<bar>n\<bar> \<le> 2 ^ 53")
  case True
  then show ?thesis by (simp add: dbl_safe fl64_of_int)
next
  case False
  define x where "x = rat_of_int n"
  define e where "e = expo \<bar>x\<bar>"
  have big: "2 ^ 53 < \<bar>x\<bar>"
  proof -
    have "2 ^ 53 < \<bar>n\<bar>" using False by simp
    then have "rat_of_int (2 ^ 53) < rat_of_int \<bar>n\<bar>" by (simp only: of_int_less_iff)
    then show ?thesis by (simp add: x_def)
  qed
  then have x0: "x \<noteq> 0" "0 < \<bar>x\<bar>" by auto
  have "\<bar>x\<bar> < 2 powi (e + 1)" unfolding e_def using expo_bounds[OF x0(2)] by simp
  then have "(2::rat) powi 53 < 2 powi (e + 1)" using big by simp
  have e53: "53 \<le> e"
  proof (rule ccontr)
    assume "\<not> 53 \<le> e"
    then have "e + 1 \<le> 53" by simp
    then have "(2::rat) powi (e + 1) \<le> 2 powi 53" by (intro power_int_increasing) auto
    then show False using \<open>(2::rat) powi 53 < 2 powi (e + 1)\<close> by simp
  qed
  define k where "k = nat (e - 52)"
  have u: "(2::rat) powi (e - 52) = of_int (2 ^ k)"
    using e53 by (simp add: k_def power_int_def)
  have s: "sgn x = of_int (sgn n)" by (simp add: x_def sgn_if)
  have "fl64 x = of_int (sgn n * (rne (\<bar>x\<bar> / of_int (2 ^ k)) * 2 ^ k))"
    using x0(1) by (simp add: fl64_def Let_def u s flip: e_def)
  then show ?thesis unfolding dbl_def by (simp only: floor_of_int flip: x_def)
qed


subsection \<open>The fetch and the countdown\<close>











lemma demo_page_eq:
  "demo_page = \<lparr> loading = False, data = Some demo_dashboard, leaderboard_st = Some demo_leaderboard,
      countdown_st = Some demo_countdown, habits = demo_habits, weekLogs = demo_logs,
      serverOffsetMs = 5000, console = [] \<rparr>"
  by (simp add: demo_page_def fetchDashboardData_def try_block_def promise_all_def isoDate_def
        demo_responses_def demo_leaderboard_def demo_countdown_def demo_parse_def initial_def Let_def
        dbl_safe)




text \<open>
  Claim C3. For every list of habits and every week start that parses, the weekly
  scheduled total (the denominator of the completion shown beside the user) is the
  larger of 1 and the number of habits times \<open>d\<close>, where \<open>d\<close> is the floor of the time
  since the week start in days, plus one, clamped to at least 1 and at most 7. The
  total is at least 1.
\<close>

theorem weekly_scheduled_total:
  assumes "weekStartIso st = Some w" and "w \<noteq> []" and "parse w = Some s"
  shows "totalPossibleThisWeek parse st clientNow =
           max 1 (int (length (habits st)) *
                    max 1 (min 7 ((clientNow + serverOffsetMs st - s) div 86400000 + 1)))
         \<and> 1 \<le> totalPossibleThisWeek parse st clientNow"
  using assms by (simp add: totalPossibleThisWeek_def daysElapsedInWeek_def Let_def max_def min_def)

theorem weekly_scheduled_total_witness:
  "weekStartIso demo_page = Some ''2024-01-01T00:00:00Z''
   \<and> demo_parse ''2024-01-01T00:00:00Z'' = Some 1704067200000
   \<and> totalPossibleThisWeek demo_parse demo_page 1704240000000 = 6"
proof -
  have w: "weekStartIso demo_page = Some ''2024-01-01T00:00:00Z''"
    by (simp add: demo_page_eq weekStartIso_def demo_leaderboard_def)
  have ne: "''2024-01-01T00:00:00Z'' \<noteq> []" by simp
  have p: "demo_parse ''2024-01-01T00:00:00Z'' = Some 1704067200000"
    by (simp add: demo_parse_def)
  show ?thesis
    using weekly_scheduled_total[where st = demo_page and w = "''2024-01-01T00:00:00Z''"
        and parse = demo_parse and s = 1704067200000 and clientNow = 1704240000000] w p
    by (simp add: demo_page_eq demo_habits_def)
qed





text \<open>
  Claim C8, as the code has it. When the fetch of the dashboard, leaderboard, countdown
  or habits data fails, \<^verbatim>\<open>fetchDashboardData\<close> catches the error: it is written to the
  console, \<open>loading\<close> is cleared, nothing else of the state changes, and the promise the
  function returns is fulfilled. The failure does not reach the caller.
\<close>

theorem failed_fetch_logged_only:
  assumes "promise_all r = Inl e"
  shows "fetchDashboardData parse r clientNow st
           = (Inr (), st\<lparr> console := console st @ [e], loading := False \<rparr>)"
  using assms by (simp add: fetchDashboardData_def try_block_def)

theorem failed_fetch_logged_only_witness:
  "promise_all failed_responses = Inl NetworkError
   \<and> fetchDashboardData demo_parse failed_responses 0 initial
       = (Inr (), initial\<lparr> console := [NetworkError], loading := False \<rparr>)"
proof -
  have f: "promise_all failed_responses = Inl NetworkError"
    by (simp add: promise_all_def failed_responses_def)
  show ?thesis
    using failed_fetch_logged_only[OF f, of demo_parse 0 initial] f
    by (simp add: initial_def)
qed

text \<open>
  The claim as stated fails: with the backend down, the fetch is fulfilled, and the
  page it leaves is the page left by a successful fetch of empty data, but for the
  line on the console.
\<close>

theorem failed_fetch_is_swallowed:
  "fst (fetchDashboardData demo_parse failed_responses 0 initial) = Inr ()
   \<and> snd (fetchDashboardData demo_parse failed_responses 0 initial)
       = (snd (fetchDashboardData demo_parse empty_responses 0 initial))\<lparr> console := [NetworkError] \<rparr>
   \<and> console (snd (fetchDashboardData demo_parse empty_responses 0 initial)) = []"
  by (simp add: fetchDashboardData_def try_block_def promise_all_def isoDate_def
        failed_responses_def empty_responses_def initial_def Let_def)

subsection \<open>The completion breakdown\<close>

text \<open>
  Claim C6. For every completion breakdown, the data of the pie chart has an entry of
  a name and a value exactly when the value is strictly positive and is the count of
  that status (Completed, Missed or Skipped) in the breakdown: a count that is missing
  or zero has no entry, a positive count has one, with that value, and no status has two.
\<close>

theorem pie_data_positive_counts:
  assumes "data st = Some d" and "completion_breakdown d = Some b"
  shows "(\<forall>n v. (\<exists>i \<in> set (pieData st). pie_name i = n \<and> pie_value i = v) \<longleftrightarrow>
             (0 < v \<and> ((n = ''Completed'' \<and> completed b = Some v)
                      \<or> (n = ''Missed'' \<and> missed b = Some v)
                      \<or> (n = ''Skipped'' \<and> skipped b = Some v))))
         \<and> distinct (map pie_name (pieData st))"
  using assms
  by (auto simp: pieData_def or0_def split: option.splits)

theorem pie_data_positive_counts_witness:
  "data demo_page = Some demo_dashboard
   \<and> completion_breakdown demo_dashboard
       = Some \<lparr> completed = Some 4, missed = Some 0, skipped = None \<rparr>
   \<and> (\<exists>i \<in> set (pieData demo_page). pie_name i = ''Completed'' \<and> pie_value i = 4)
   \<and> \<not> (\<exists>i \<in> set (pieData demo_page). pie_name i = ''Missed'' \<and> pie_value i = 0)
   \<and> length (pieData demo_page) = 1"
proof -
  have d: "data demo_page = Some demo_dashboard"
    by (simp add: demo_page_eq)
  have b: "completion_breakdown demo_dashboard
       = Some \<lparr> completed = Some 4, missed = Some 0, skipped = None \<rparr>"
    by (simp add: demo_dashboard_def)
  have l: "length (pieData demo_page) = 1"
    by (simp add: pieData_def demo_page_eq demo_dashboard_def or0_def)
  show ?thesis
    using pie_data_positive_counts[OF d b] d b l by simp
qed

subsection \<open>Completed logs of the week\<close>






lemma inherited_iff: "k \<in> set inherited \<longleftrightarrow> k = ''__proto__'' \<or> k \<in> set builtins"
  by (simp add: inherited_def)



















subsection \<open>The countdown format\<close>

declare String.simps [simp del]

lemma digit_is_digit: "0 \<le> d \<Longrightarrow> d < 10 \<Longrightarrow> is_digit (digit d)"
  by (simp add: is_digit_def digit_def)

lemma digit_value: "0 \<le> d \<Longrightarrow> d < 10 \<Longrightarrow> of_char (digit d) - 48 = d"
  by (simp add: digit_def)

lemma String_digits: "0 \<le> n \<Longrightarrow> list_all is_digit (String n)"
proof (induction n rule: String.induct)
  case (1 n)
  show ?case
  proof (cases "n < 10")
    case True
    then show ?thesis using 1(2) by (subst String.simps) (simp add: digit_is_digit)
  next
    case False
    then show ?thesis using 1 by (subst String.simps) (simp add: digit_is_digit)
  qed
qed

lemma decimal_snoc: "decimal (cs @ [c]) = 10 * decimal cs + (of_char c - 48)"
  by (simp add: decimal_def)

lemma decimal_String: "0 \<le> n \<Longrightarrow> decimal (String n) = n"
proof (induction n rule: String.induct)
  case (1 n)
  show ?case
  proof (cases "n < 10")
    case True
    then show ?thesis using 1(2) by (subst String.simps) (simp add: decimal_def digit_value)
  next
    case False
    then show ?thesis using 1
      by (subst String.simps) (simp add: decimal_snoc digit_value)
  qed
qed

lemma length_String_pos: "0 < length (String n)"
  by (subst String.simps) simp

lemma length_String_lt10: "n < 10 \<Longrightarrow> length (String n) = 1"
  by (subst String.simps) simp

lemma length_String_lt100: "10 \<le> n \<Longrightarrow> n < 100 \<Longrightarrow> length (String n) = 2"
  by (subst String.simps) (simp add: length_String_lt10)

lemma length_String_ge10: "10 \<le> n \<Longrightarrow> 2 \<le> length (String n)"
proof -
  assume "10 \<le> n"
  then have "String n = String (n div 10) @ [digit (n mod 10)]"
    by (subst String.simps) simp
  moreover have "1 \<le> length (String (n div 10))"
    using length_String_pos[of "n div 10"] by linarith
  ultimately show ?thesis by simp
qed

lemma length_String_ge100: "100 \<le> n \<Longrightarrow> 3 \<le> length (String n)"
proof -
  assume h: "100 \<le> n"
  then have "String n = String (n div 10) @ [digit (n mod 10)]"
    by (subst String.simps) simp
  moreover have "2 \<le> length (String (n div 10))"
    using h by (intro length_String_ge10) simp
  ultimately show ?thesis by simp
qed

lemma decimal_zeros: "decimal (replicate k (CHR ''0'') @ cs) = decimal cs"
proof -
  have "foldl (\<lambda>n c. 10 * n + (of_char c - 48)) 0 (replicate k (CHR ''0'')) = (0::int)"
    by (induction k) simp_all
  then show ?thesis by (simp add: decimal_def)
qed

lemma pad2_props:
  assumes "0 \<le> n"
  shows "list_all is_digit (pad2 n)" and "2 \<le> length (pad2 n)" and "decimal (pad2 n) = n"
    and "n < 100 \<Longrightarrow> length (pad2 n) = 2" and "100 \<le> n \<Longrightarrow> 3 \<le> length (pad2 n)"
proof -
  have p: "pad2 n = replicate (2 - length (String n)) (CHR ''0'') @ String n"
    using assms by (simp add: pad2_def padStart_def)
  have "is_digit (CHR ''0'')" by (simp add: is_digit_def)
  then show "list_all is_digit (pad2 n)"
    using String_digits[OF assms] by (auto simp: p list_all_iff)
  show "2 \<le> length (pad2 n)" by (simp add: p)
  show "decimal (pad2 n) = n" using assms by (simp add: p decimal_zeros decimal_String)
  show "length (pad2 n) = 2" if "n < 100"
  proof (cases "n < 10")
    case True
    then show ?thesis by (simp add: p length_String_lt10)
  next
    case False
    then show ?thesis using that by (simp add: p length_String_lt100)
  qed
  show "3 \<le> length (pad2 n)" if "100 \<le> n"
  proof -
    have "3 \<le> length (String n)" using that by (rule length_String_ge100)
    then show ?thesis by (simp add: p)
  qed
qed

lemma div_parts:
  fixes s :: int
  assumes "0 \<le> s"
  shows "0 \<le> s div 86400"
    and "0 \<le> (s mod 86400) div 3600" and "(s mod 86400) div 3600 < 24"
    and "0 \<le> (s mod 3600) div 60" and "(s mod 3600) div 60 < 60"
    and "0 \<le> s mod 60" and "s mod 60 < 60"
  using assms by (simp_all add: pos_imp_zdiv_nonneg_iff div_less_iff_less_mult)

lemma sum_parts:
  fixes s :: int
  shows "s div 86400 * 86400 + (s mod 86400) div 3600 * 3600 + (s mod 3600) div 60 * 60 + s mod 60 = s"
proof -
  have a: "(s mod 86400) mod 3600 = s mod 3600" by (simp add: mod_mod_cancel)
  have b: "(s mod 3600) mod 60 = s mod 60" by (simp add: mod_mod_cancel)
  have "s = s div 86400 * 86400 + s mod 86400" by simp
  also have "s mod 86400 = (s mod 86400) div 3600 * 3600 + (s mod 86400) mod 3600" by simp
  also have "(s mod 86400) mod 3600 = (s mod 3600) div 60 * 60 + (s mod 3600) mod 60"
    unfolding a by simp
  finally show ?thesis unfolding b by simp
qed

lemma format_parts:
  assumes safe: "totalSecondsOf v < 2 ^ 53"
  shows "\<exists>D H M S. formatDDHHMMSS v = D @ '':'' @ H @ '':'' @ M @ '':'' @ S
     \<and> list_all is_digit D \<and> list_all is_digit H \<and> list_all is_digit M \<and> list_all is_digit S
     \<and> 2 \<le> length D \<and> length H = 2 \<and> length M = 2 \<and> length S = 2
     \<and> decimal H < 24 \<and> decimal M < 60 \<and> decimal S < 60
     \<and> decimal D * 86400 + decimal H * 3600 + decimal M * 60 + decimal S = totalSecondsOf v
     \<and> (decimal D < 100 \<longrightarrow> length D = 2) \<and> (100 \<le> decimal D \<longrightarrow> 3 \<le> length D)"
proof -
  define s where "s = totalSecondsOf v"
  define d where "d = s div 86400"
  define h where "h = (s mod 86400) div 3600"
  define m where "m = (s mod 3600) div 60"
  define c where "c = s mod 60"
  have s0: "0 \<le> s" by (simp add: s_def totalSecondsOf_def)
  have s1: "\<bar>s\<bar> < 2 ^ 53" using s0 safe by (simp add: s_def)
  have s2: "\<bar>s mod 86400\<bar> < 2 ^ 53"
  proof -
    have "\<bar>s mod 86400\<bar> < 86400" by simp
    then show ?thesis by simp
  qed
  have s3: "\<bar>s mod 3600\<bar> < 2 ^ 53"
  proof -
    have "\<bar>s mod 3600\<bar> < 3600" by simp
    then show ?thesis by simp
  qed
  have jd: "Math_floor_div s 86400 = d"
    unfolding d_def using s1 by (intro Math_floor_div_safe) simp_all
  have jh: "Math_floor_div (s mod 86400) 3600 = h"
    unfolding h_def using s2 by (intro Math_floor_div_safe) simp_all
  have jm: "Math_floor_div (s mod 3600) 60 = m"
    unfolding m_def using s3 by (intro Math_floor_div_safe) simp_all
  have d0: "0 \<le> d" unfolding d_def by (rule div_parts(1)[OF s0])
  have h0: "0 \<le> h" unfolding h_def by (rule div_parts(2)[OF s0])
  have h1: "h < 24" unfolding h_def by (rule div_parts(3)[OF s0])
  have m0: "0 \<le> m" unfolding m_def by (rule div_parts(4)[OF s0])
  have m1: "m < 60" unfolding m_def by (rule div_parts(5)[OF s0])
  have c0: "0 \<le> c" unfolding c_def by (rule div_parts(6)[OF s0])
  have c1: "c < 60" unfolding c_def by (rule div_parts(7)[OF s0])
  have sum: "d * 86400 + h * 3600 + m * 60 + c = s"
    unfolding d_def h_def m_def c_def by (rule sum_parts)
  have f: "formatDDHHMMSS v = pad2 d @ '':'' @ pad2 h @ '':'' @ pad2 m @ '':'' @ pad2 c"
    unfolding formatDDHHMMSS_def Let_def s_def[symmetric] jd jh jm c_def by (rule refl)
  have D: "list_all is_digit (pad2 d)" "2 \<le> length (pad2 d)" "decimal (pad2 d) = d"
    "d < 100 \<longrightarrow> length (pad2 d) = 2" "100 \<le> d \<longrightarrow> 3 \<le> length (pad2 d)"
    using pad2_props[OF d0] by simp_all
  have H: "list_all is_digit (pad2 h)" "length (pad2 h) = 2" "decimal (pad2 h) = h"
    using pad2_props[OF h0] h1 by simp_all
  have M: "list_all is_digit (pad2 m)" "length (pad2 m) = 2" "decimal (pad2 m) = m"
    using pad2_props[OF m0] m1 by simp_all
  have C: "list_all is_digit (pad2 c)" "length (pad2 c) = 2" "decimal (pad2 c) = c"
    using pad2_props[OF c0] c1 by simp_all
  show ?thesis
    apply (rule exI[of _ "pad2 d"], rule exI[of _ "pad2 h"], rule exI[of _ "pad2 m"], rule exI[of _ "pad2 c"])
    unfolding D(3) H(3) M(3) C(3) sum
    using f D(1,2,4,5) H(1,2) M(1,2) C(1,2) h1 m1 c1
    by (simp only: s_def simp_thms)
qed

lemma pad2_zero: "pad2 0 = ''00''"
  by code_simp

lemma Math_floor_div_zero: "Math_floor_div 0 b = 0"
  by (simp add: Math_floor_div_def fl64_def)

lemma format_zero: "totalSecondsOf v = 0 \<Longrightarrow> formatDDHHMMSS v = ''00:00:00:00''"
  by (simp add: formatDDHHMMSS_def pad2_zero Math_floor_div_zero)

text \<open>
  Claim C9, as the code has it. For every finite input that is not negative and is
  below \<open>2^53\<close>, \<open>formatDDHHMMSS\<close> returns four components of decimal digits separated
  by colons, each of at least two digits (the hours, minutes and seconds of exactly
  two), with hours below 24 and minutes and seconds below 60, and the components read
  as numbers decompose the floor of the input: days times 86400 plus hours times 3600
  plus minutes times 60 plus seconds. The days are not truncated: from 100 on they
  take three digits or more. An input that is \<^verbatim>\<open>NaN\<close>, infinite, negative or not a
  number gives \<open>00:00:00:00\<close>.
\<close>

theorem format_countdown:
  "(\<forall>x. v = Num x \<and> 0 \<le> x \<and> \<lfloor>x\<rfloor> < 2 ^ 53 \<longrightarrow>
      (\<exists>D H M S. formatDDHHMMSS v = D @ '':'' @ H @ '':'' @ M @ '':'' @ S
         \<and> list_all is_digit D \<and> list_all is_digit H \<and> list_all is_digit M \<and> list_all is_digit S
         \<and> 2 \<le> length D \<and> length H = 2 \<and> length M = 2 \<and> length S = 2
         \<and> decimal H < 24 \<and> decimal M < 60 \<and> decimal S < 60
         \<and> decimal D * 86400 + decimal H * 3600 + decimal M * 60 + decimal S = \<lfloor>x\<rfloor>
         \<and> (decimal D < 100 \<longrightarrow> length D = 2) \<and> (100 \<le> decimal D \<longrightarrow> 3 \<le> length D)))
   \<and> ((case v of Num x \<Rightarrow> x < 0 | _ \<Rightarrow> True) \<longrightarrow> formatDDHHMMSS v = ''00:00:00:00'')"
proof (intro conjI allI impI)
  fix x
  assume a: "v = Num x \<and> 0 \<le> x \<and> \<lfloor>x\<rfloor> < 2 ^ 53"
  then have t: "totalSecondsOf v = \<lfloor>x\<rfloor>" by (simp add: totalSecondsOf_def)
  then have "totalSecondsOf v < 2 ^ 53" using a by simp
  then show "\<exists>D H M S. formatDDHHMMSS v = D @ '':'' @ H @ '':'' @ M @ '':'' @ S
         \<and> list_all is_digit D \<and> list_all is_digit H \<and> list_all is_digit M \<and> list_all is_digit S
         \<and> 2 \<le> length D \<and> length H = 2 \<and> length M = 2 \<and> length S = 2
         \<and> decimal H < 24 \<and> decimal M < 60 \<and> decimal S < 60
         \<and> decimal D * 86400 + decimal H * 3600 + decimal M * 60 + decimal S = \<lfloor>x\<rfloor>
         \<and> (decimal D < 100 \<longrightarrow> length D = 2) \<and> (100 \<le> decimal D \<longrightarrow> 3 \<le> length D)"
    using format_parts[of v] unfolding t by blast
next
  assume "case v of Num x \<Rightarrow> x < 0 | _ \<Rightarrow> True"
  then have "totalSecondsOf v = 0"
    by (cases v) (simp_all add: totalSecondsOf_def max_def)
  then show "formatDDHHMMSS v = ''00:00:00:00''" by (rule format_zero)
qed

theorem format_countdown_witness:
  "formatDDHHMMSS NaN = ''00:00:00:00''
   \<and> formatDDHHMMSS (Num (- 5)) = ''00:00:00:00''
   \<and> formatDDHHMMSS (Num 90061) = ''01:01:01:01''
   \<and> formatDDHHMMSS (Num (8640000 + 1 / 2)) = ''100:00:00:00''
   \<and> (\<exists>D H M S. formatDDHHMMSS (Num 90061) = D @ '':'' @ H @ '':'' @ M @ '':'' @ S
        \<and> decimal D * 86400 + decimal H * 3600 + decimal M * 60 + decimal S = 90061)"
proof -
  have a: "formatDDHHMMSS NaN = ''00:00:00:00''"
    by (rule format_countdown[of NaN, THEN conjunct2, THEN mp]) simp
  have b: "formatDDHHMMSS (Num (- 5)) = ''00:00:00:00''"
    by (rule format_countdown[of "Num (- 5)", THEN conjunct2, THEN mp]) simp
  have c: "formatDDHHMMSS (Num 90061) = ''01:01:01:01''"
    by code_simp
  have d: "formatDDHHMMSS (Num (8640000 + 1 / 2)) = ''100:00:00:00''"
    by code_simp
  have p: "Num 90061 = Num 90061 \<and> (0::rat) \<le> 90061 \<and> \<lfloor>90061::rat\<rfloor> < 2 ^ 53"
    by simp
  have f: "\<lfloor>90061::rat\<rfloor> = 90061" by simp
  have e: "\<exists>D H M S. formatDDHHMMSS (Num 90061) = D @ '':'' @ H @ '':'' @ M @ '':'' @ S
        \<and> decimal D * 86400 + decimal H * 3600 + decimal M * 60 + decimal S = 90061"
    using format_countdown[of "Num 90061", THEN conjunct1, THEN spec, THEN mp, OF p]
    unfolding f by blast
  show ?thesis by (intro conjI a b c d e)
qed

text \<open>
  The claim as stated fails for large inputs: at \<open>2^61 + 158720\<close> seconds (a double)
  the quotient by 86400 rounds up to the next integer, the days are one too many, and
  the components add up to the input plus a day.
\<close>

theorem format_countdown_counterexample:
  "formatDDHHMMSS (Num 2305843009213852672) = ''26687997791827:23:57:52''
   \<and> decimal ''26687997791827'' * 86400 + decimal ''23'' * 3600 + decimal ''57'' * 60 + decimal ''52''
       = 2305843009213852672 + 86400
   \<and> \<lfloor>2305843009213852672 :: rat\<rfloor> = 2305843009213852672
   \<and> fl64 2305843009213852672 = 2305843009213852672"
  by code_simp

subsection \<open>Initials\<close>

declare words.simps [simp del]
declare split.simps [simp del]

lemma words_Nil: "words [] = []"
  by (subst words.simps) simp

lemma words_ws: "isWhiteSpace c \<Longrightarrow> words (c # s) = words s"
  by (subst words.simps, subst (2) words.simps) simp

lemma words_nonws:
  "\<not> isWhiteSpace c \<Longrightarrow>
     words (c # s) = (c # takeWhile (\<lambda>c. \<not> isWhiteSpace c) s) # words (dropWhile (\<lambda>c. \<not> isWhiteSpace c) s)"
  by (subst words.simps) simp

lemma words_dropWhile: "words (dropWhile isWhiteSpace s) = words s"
  by (induction s) (simp_all add: words_ws)

lemma split_Nil: "split [] = [[]]"
  by (subst split.simps) simp

lemma split_ws: "isWhiteSpace c \<Longrightarrow> split (c # s) = [] # split (dropWhile isWhiteSpace s)"
  by (subst split.simps) simp

lemma split_nonempty: "split s \<noteq> []"
  by (subst split.simps) (simp split: list.splits)

lemma filter_split: "filter (\<lambda>p. p \<noteq> []) (split s) = words s"
proof (induction s rule: length_induct)
  case (1 s)
  show ?case
  proof (cases s)
    case Nil
    then show ?thesis by (simp add: split_Nil words_Nil)
  next
    case (Cons c cs)
    show ?thesis
    proof (cases "isWhiteSpace c")
      case True
      have "length (dropWhile isWhiteSpace cs) < length s"
        using Cons length_dropWhile_le[of isWhiteSpace cs] by simp
      then have "filter (\<lambda>p. p \<noteq> []) (split (dropWhile isWhiteSpace cs)) = words (dropWhile isWhiteSpace cs)"
        using 1 by blast
      then show ?thesis using True Cons by (simp add: split_ws words_ws words_dropWhile)
    next
      case False
      define t where "t = takeWhile (\<lambda>c. \<not> isWhiteSpace c) cs"
      define r where "r = dropWhile (\<lambda>c. \<not> isWhiteSpace c) cs"
      note s = Cons
      show ?thesis
      proof (cases r)
        case Nil
        then have "t = cs" unfolding t_def r_def by (metis takeWhile_dropWhile_id append_Nil2)
        moreover have "split s = [s]"
          unfolding s using False by (subst split.simps) (simp add: Nil[unfolded r_def])
        ultimately show ?thesis using Nil False s
          by (simp add: words_nonws words_Nil flip: t_def r_def)
      next
        case (Cons x xs)
        have x: "isWhiteSpace x" using Cons hd_dropWhile[of "\<lambda>c. \<not> isWhiteSpace c" cs]
          by (simp add: r_def)
        have sp: "split s = (c # t) # split (dropWhile isWhiteSpace xs)"
          unfolding s using False by (subst split.simps) (simp add: t_def Cons[unfolded r_def])
        have "length (dropWhile isWhiteSpace xs) \<le> length xs" by (rule length_dropWhile_le)
        moreover have "length r \<le> length cs" unfolding r_def by (rule length_dropWhile_le)
        ultimately have "length (dropWhile isWhiteSpace xs) < length s"
          using Cons s by simp
        then have ih: "filter (\<lambda>p. p \<noteq> []) (split (dropWhile isWhiteSpace xs)) = words (dropWhile isWhiteSpace xs)"
          using 1 by blast
        have "words r = words (dropWhile isWhiteSpace xs)"
          using x Cons by (simp add: words_ws words_dropWhile)
        then show ?thesis using sp ih False s
          by (simp add: words_nonws flip: t_def r_def)
      qed
    qed
  qed
qed

lemma words_all_ws: "list_all isWhiteSpace v \<Longrightarrow> words v = []"
  by (induction v) (simp_all add: words_Nil words_ws)

lemma words_eq_Nil: "words s = [] \<longleftrightarrow> list_all isWhiteSpace s"
proof
  show "words s = [] \<Longrightarrow> list_all isWhiteSpace s"
  proof (induction s)
    case Nil
    then show ?case by simp
  next
    case (Cons c cs)
    then show ?case by (cases "isWhiteSpace c") (simp_all add: words_ws words_nonws)
  qed
qed (rule words_all_ws)

lemma words_append_ws:
  assumes v: "list_all isWhiteSpace v"
  shows "words (u @ v) = words u"
proof (induction u rule: length_induct)
  case (1 u)
  show ?case
  proof (cases u)
    case Nil
    then show ?thesis using v by (simp add: words_all_ws words_Nil)
  next
    case (Cons c cs)
    show ?thesis
    proof (cases "isWhiteSpace c")
      case True
      have "words (cs @ v) = words cs" using 1 Cons by simp
      then show ?thesis using True Cons by (simp add: words_ws)
    next
      case False
      show ?thesis
      proof (cases "\<forall>x\<in>set cs. \<not> isWhiteSpace x")
        case True
        have tv: "takeWhile (\<lambda>c. \<not> isWhiteSpace c) v = []"
          using v by (cases v) simp_all
        have dv: "dropWhile (\<lambda>c. \<not> isWhiteSpace c) v = v"
          using v by (cases v) simp_all
        have tc: "takeWhile (\<lambda>c. \<not> isWhiteSpace c) cs = cs"
          using True by simp
        have dc: "dropWhile (\<lambda>c. \<not> isWhiteSpace c) cs = []"
          using True by simp
        have tcv: "takeWhile (\<lambda>c. \<not> isWhiteSpace c) (cs @ v) = cs"
          using True by (simp add: tv)
        have dcv: "dropWhile (\<lambda>c. \<not> isWhiteSpace c) (cs @ v) = v"
          using True by (simp add: dv)
        have "words (c # cs @ v) = [c # cs]"
          using False by (simp add: words_nonws tcv dcv words_all_ws[OF v])
        moreover have "words (c # cs) = [c # cs]"
          using False by (simp add: words_nonws tc dc words_Nil)
        ultimately show ?thesis using Cons by simp
      next
        case nall: False
        then obtain x where x: "x \<in> set cs" "\<not> \<not> isWhiteSpace x" by blast
        define r where "r = dropWhile (\<lambda>c. \<not> isWhiteSpace c) cs"
        have t: "takeWhile (\<lambda>c. \<not> isWhiteSpace c) (cs @ v) = takeWhile (\<lambda>c. \<not> isWhiteSpace c) cs"
          using x by (rule takeWhile_append1)
        have d: "dropWhile (\<lambda>c. \<not> isWhiteSpace c) (cs @ v) = r @ v"
          unfolding r_def using x by (rule dropWhile_append1)
        have "length r < length u" using Cons length_dropWhile_le[of "\<lambda>c. \<not> isWhiteSpace c" cs]
          by (simp add: r_def)
        then have "words (r @ v) = words r" using 1 by blast
        then show ?thesis using False Cons by (simp add: words_nonws t d r_def)
      qed
    qed
  qed
qed

lemma words_trim: "words (trim s) = words s"
proof -
  define s' where "s' = dropWhile isWhiteSpace s"
  define w where "w = rev (takeWhile isWhiteSpace (rev s'))"
  have "s' = rev (dropWhile isWhiteSpace (rev s')) @ rev (takeWhile isWhiteSpace (rev s'))"
    by (metis rev_append rev_rev_ident takeWhile_dropWhile_id)
  then have "s' = trim s @ w" by (simp add: trim_def w_def s'_def)
  moreover have "list_all isWhiteSpace w"
    by (simp add: w_def list_all_iff) (metis set_takeWhileD)
  ultimately have "words s' = words (trim s)" by (simp add: words_append_ws)
  then show ?thesis by (simp add: s'_def words_dropWhile)
qed

lemma parts_words: "parts name = words (case name of None \<Rightarrow> [] | Some s \<Rightarrow> s)"
  by (simp add: parts_def filter_split words_trim)

lemma words_clean: "p \<in> set (words s) \<Longrightarrow> p \<noteq> [] \<and> set p \<subseteq> set s \<and> (\<forall>c\<in>set p. \<not> isWhiteSpace c)"
proof (induction s arbitrary: p rule: length_induct)
  case (1 s)
  show ?case
  proof (cases s)
    case Nil
    then show ?thesis using 1 by (simp add: words_Nil)
  next
    case (Cons c cs)
    show ?thesis
    proof (cases "isWhiteSpace c")
      case True
      then have "p \<in> set (words cs)" using 1 Cons by (simp add: words_ws)
      moreover have "length cs < length s" using Cons by simp
      ultimately have "p \<noteq> [] \<and> set p \<subseteq> set cs \<and> (\<forall>c\<in>set p. \<not> isWhiteSpace c)"
        using 1(1) by blast
      then show ?thesis using Cons by auto
    next
      case False
      define r where "r = dropWhile (\<lambda>c. \<not> isWhiteSpace c) cs"
      have "p = c # takeWhile (\<lambda>c. \<not> isWhiteSpace c) cs \<or> p \<in> set (words r)"
        using 1(2) False Cons by (simp add: words_nonws r_def)
      then show ?thesis
      proof
        assume p: "p = c # takeWhile (\<lambda>c. \<not> isWhiteSpace c) cs"
        have "set (takeWhile (\<lambda>c. \<not> isWhiteSpace c) cs) \<subseteq> set cs" by (rule set_takeWhileD[THEN conjunct1, THEN subsetI])
        then show ?thesis using p False Cons by (auto dest: set_takeWhileD)
      next
        assume p: "p \<in> set (words r)"
        have "length r < length s" using Cons length_dropWhile_le[of "\<lambda>c. \<not> isWhiteSpace c" cs]
          by (simp add: r_def)
        then have "p \<noteq> [] \<and> set p \<subseteq> set r \<and> (\<forall>c\<in>set p. \<not> isWhiteSpace c)"
          using 1(1) p by blast
        moreover have "set r \<subseteq> set cs" unfolding r_def by (rule set_dropWhileD[THEN subsetI])
        ultimately show ?thesis using Cons by auto
      qed
    qed
  qed
qed

lemma upper_letter:
  fixes c :: code_unit
  assumes "0x61 \<le> c" and "c \<le> 0x7A"
  shows "0x41 \<le> c - 0x20 \<and> c - 0x20 \<le> 0x5A"
  using assms by unat_arith

lemma upperLatin1_ascii:
  assumes "isAscii c"
  shows "\<exists>d. upperLatin1 c = [d] \<and> isAscii d \<and> upperLatin1 d = [d]"
proof (cases "0x61 \<le> c \<and> c \<le> 0x7A")
  case True
  then have b: "0x41 \<le> c - 0x20 \<and> c - 0x20 \<le> 0x5A" using upper_letter by blast
  have 1: "upperLatin1 c = [c - 0x20]" using True by (simp add: upperLatin1_def)
  have 2: "isAscii (c - 0x20)" using b unfolding isAscii_def by unat_arith
  have n: "\<not> (0x61 \<le> c - 0x20)" "c - 0x20 \<noteq> 0xB5" "c - 0x20 \<noteq> 0xDF"
    "\<not> (0xE0 \<le> c - 0x20)" "c - 0x20 \<noteq> 0xFF"
    using b by unat_arith+
  have 3: "upperLatin1 (c - 0x20) = [c - 0x20]"
    using n by (simp add: upperLatin1_def)
  show ?thesis using 1 2 3 by blast
next
  case False
  have n: "c \<noteq> 0xB5" "c \<noteq> 0xDF" "\<not> (0xE0 \<le> c)" "c \<noteq> 0xFF"
    using assms unfolding isAscii_def by unat_arith+
  have "upperLatin1 c = [c]" using False n by (simp add: upperLatin1_def)
  then show ?thesis using assms by simp
qed

lemma ascii_latin1: "isAscii c \<Longrightarrow> c < 0x100"
  unfolding isAscii_def by unat_arith

lemma toUpperCase_ascii:
  assumes "list_all isAscii s"
  shows "length (toUpperCase ext s) = length s \<and> list_all isAscii (toUpperCase ext s)
         \<and> toUpperCase ext (toUpperCase ext s) = toUpperCase ext s"
proof -
  have l: "\<And>t. list_all isAscii t \<Longrightarrow> list_all (\<lambda>c. c < 0x100) t"
    by (simp add: list_all_iff ascii_latin1)
  have u: "\<And>t. list_all isAscii t \<Longrightarrow> toUpperCase ext t = concat (map upperLatin1 t)"
    using l by (simp add: toUpperCase_def)
  have c: "length (concat (map upperLatin1 s)) = length s
        \<and> list_all isAscii (concat (map upperLatin1 s))
        \<and> concat (map upperLatin1 (concat (map upperLatin1 s))) = concat (map upperLatin1 s)"
    using assms
  proof (induction s)
    case Nil
    then show ?case by simp
  next
    case (Cons c cs)
    then obtain d where d: "upperLatin1 c = [d]" "isAscii d" "upperLatin1 d = [d]"
      using upperLatin1_ascii[of c] by auto
    show ?case using Cons d by simp
  qed
  show ?thesis using c u[OF assms] u[of "concat (map upperLatin1 s)"] by simp
qed

text \<open>
  Claim C10, as the code has it. For every input, \<^verbatim>\<open>null\<close>, \<^verbatim>\<open>undefined\<close>, the empty
  string and strings of white space included, \<open>nameInitials\<close> returns a string and
  does not throw: \<open>U\<close> when the input has no word (which is exactly when it has no
  code unit that is not white space), the upper-casing of the first two code units of
  the word when there is one word, and the upper-casing of the first code units of the
  first two words otherwise; a word is never empty, so what is upper-cased has one or
  two code units. For an ASCII input the result has one or two characters, all ASCII,
  and upper-casing it again changes nothing.
\<close>

theorem name_initials:
  fixes name :: "jsstring option"
  defines "txt \<equiv> (case name of None \<Rightarrow> [] | Some s \<Rightarrow> s)"
  shows "\<exists>w. nameInitials ext name = Inr w
       \<and> (case words txt of
             [] \<Rightarrow> w = utf16 ''U''
           | [p] \<Rightarrow> p \<noteq> [] \<and> w = toUpperCase ext (take 2 p)
           | p # q # _ \<Rightarrow> p \<noteq> [] \<and> q \<noteq> [] \<and> w = toUpperCase ext [hd p, hd q])
       \<and> (words txt = [] \<longleftrightarrow> list_all isWhiteSpace txt)
       \<and> (list_all isAscii txt \<longrightarrow>
             (length w = 1 \<or> length w = 2) \<and> list_all isAscii w \<and> toUpperCase ext w = w)"
proof -
  have pw: "parts name = words txt" by (simp add: parts_words txt_def)
  have U: "isAscii 0x55" "utf16 ''U'' = [0x55]" by (simp_all add: isAscii_def utf16_def)
  have up: "\<And>s. list_all isAscii txt \<Longrightarrow> set s \<subseteq> set txt \<Longrightarrow>
      length (toUpperCase ext s) = length s \<and> list_all isAscii (toUpperCase ext s)
      \<and> toUpperCase ext (toUpperCase ext s) = toUpperCase ext s"
    by (rule toUpperCase_ascii) (auto simp: list_all_iff)
  show ?thesis
  proof (cases "words txt")
    case Nil
    have "toUpperCase ext [0x55] = [0x55]"
      by (simp add: toUpperCase_def upperLatin1_def)
    moreover have "list_all isWhiteSpace txt" using Nil words_eq_Nil by blast
    ultimately show ?thesis using U by (simp add: nameInitials_def pw Nil)
  next
    case (Cons p ps)
    note wp = Cons
    have "p \<in> set (words txt)" by (simp add: wp)
    then have p: "p \<noteq> []" "set p \<subseteq> set txt" using words_clean by blast+
    have ne: "\<not> list_all isWhiteSpace txt"
    proof
      assume "list_all isWhiteSpace txt"
      then have "words txt = []" by (rule words_all_ws)
      then show False using wp by simp
    qed
    show ?thesis
    proof (cases ps)
      case Nil
      have s: "set (take 2 p) \<subseteq> set txt" using p set_take_subset[of 2 p] by blast
      have l: "length (take 2 p) = 1 \<or> length (take 2 p) = 2"
        using p by (cases p; cases "tl p") auto
      show ?thesis
        using ne up[OF _ s] l p(1) by (auto simp: nameInitials_def pw wp Nil)
    next
      case (Cons q qs)
      have "q \<in> set (words txt)" by (simp add: wp Cons)
      then have q: "q \<noteq> []" "set q \<subseteq> set txt" using words_clean by blast+
      have c: "js_add (charAt0 p) (charAt0 q) = Some [hd p, hd q]"
        using p q by (cases p; cases q) (simp_all add: js_add_def charAt0_def)
      have s: "set [hd p, hd q] \<subseteq> set txt" using p q by (cases p; cases q) auto
      show ?thesis
        using ne up[OF _ s] p(1) q(1) by (auto simp: nameInitials_def pw wp Cons c)
    qed
  qed
qed


theorem name_initials_witness:
  "list_all isAscii (utf16 ''  john   doe smith '')
   \<and> (\<exists>w. nameInitials (\<lambda>s. s) (Some (utf16 ''  john   doe smith '')) = Inr w
          \<and> w = utf16 ''JD'' \<and> length w = 2 \<and> toUpperCase (\<lambda>s. s) w = w)"
proof -
  have a: "list_all isAscii (utf16 ''  john   doe smith '')"
    by code_simp
  have e: "nameInitials (\<lambda>s. s) (Some (utf16 ''  john   doe smith '')) = Inr (utf16 ''JD'')"
    by code_simp
  have l: "length (utf16 ''JD'') = 2" by (simp add: utf16_def)
  obtain w where w: "nameInitials (\<lambda>s. s) (Some (utf16 ''  john   doe smith '')) = Inr w"
    "toUpperCase (\<lambda>s. s) w = w"
    using name_initials[of "\<lambda>s. s" "Some (utf16 ''  john   doe smith '')"] a by auto
  show ?thesis using a e l w by simp
qed

text \<open>
  The claim as stated fails twice: the name \<open>u\<close> has a character that is not white
  space and gives \<open>U\<close>, and upper-casing lengthens the sharp s, so that a name of two
  of them gives four characters.
\<close>

theorem name_initials_counterexample:
  "nameInitials (\<lambda>s. s) (Some (utf16 ''u'')) = Inr (utf16 ''U'')
   \<and> \<not> list_all isWhiteSpace (utf16 ''u'')
   \<and> nameInitials (\<lambda>s. s) (Some [0xDF, 0xDF]) = Inr (utf16 ''SSSS'')
   \<and> length (utf16 ''SSSS'') = 4"
  by code_simp

subsection \<open>Percentages\<close>















text \<open>The rounding of doubles shows: 29 of 200 is 14 percent, not 15.\<close>

lemma entry_pct_double_rounding:
  "entryPct (Some \<lparr> week_start = None, week_end_iso = None,
       entries = [ \<lparr> user_id = ''a'', score = Some 200, rank = 1 \<rparr>,
                   \<lparr> user_id = ''b'', score = Some 29, rank = 2 \<rparr> ] \<rparr>)
     \<lparr> user_id = ''b'', score = Some 29, rank = 2 \<rparr> = Some 14"
  by code_simp

section \<open>Properties of the leaderboard engine\<close>

subsection \<open>Reset\<close>

lemma reset_same_week:
  assumes "snap_week_start (current st) = w_start (windowFor_week tz t)"
  shows "reset tz t st = (\<lparr> rolled_over = False, res_week_start = w_start (windowFor_week tz t) \<rparr>, st)"
  using assms by (simp add: reset_def Let_def)

lemma list_ex_week:
  "list_ex (\<lambda>h. snap_week_start h = k) hs \<longleftrightarrow> k \<in> set (map snap_week_start hs)"
  by (induction hs) auto

lemma reset_new_week:
  assumes "snap_week_start (current st) \<noteq> w_start (windowFor_week tz t)"
  shows "rolled_over (fst (reset tz t st))"
    and "snap_week_start (current (snd (reset tz t st))) = w_start (windowFor_week tz t)"
    and "history (snd (reset tz t st)) =
           (if snap_week_start (current st) \<in> set (weeks_of st) then history st
            else history st @ [(current st)\<lparr> snap_reset_at := Some t \<rparr>])"
  using assms by (simp_all add: reset_def Let_def weeks_of_def list_ex_week)

lemma reset_prefix: "prefix (history st) (history (snd (reset tz t st)))"
  by (cases "snap_week_start (current st) = w_start (windowFor_week tz t)")
     (simp_all add: reset_same_week reset_new_week(3))

lemma reset_distinct:
  assumes "distinct (weeks_of st)"
  shows "distinct (weeks_of (snd (reset tz t st)))"
proof (cases "snap_week_start (current st) = w_start (windowFor_week tz t)")
  case True
  then show ?thesis using assms by (simp add: reset_same_week)
next
  case False
  show ?thesis
    using assms reset_new_week(3)[OF False] by (auto simp: weeks_of_def)
qed

lemma resets_snoc: "resets tz (ts @ [t]) st = snd (reset tz t (resets tz ts st))"
  by (simp add: resets_def)

lemma resets_invariant:
  assumes "distinct (weeks_of st)"
  shows "prefix (history st) (history (resets tz ts st)) \<and> distinct (weeks_of (resets tz ts st))"
proof (induction ts rule: rev_induct)
  case Nil
  then show ?case using assms by (simp add: resets_def)
next
  case (snoc t ts)
  have "prefix (history (resets tz ts st)) (history (resets tz (ts @ [t]) st))"
    unfolding resets_snoc by (rule reset_prefix)
  then have "prefix (history st) (history (resets tz (ts @ [t]) st))"
    using snoc prefix_order.trans by blast
  moreover have "distinct (weeks_of (resets tz (ts @ [t]) st))"
    unfolding resets_snoc using snoc by (intro reset_distinct) simp
  ultimately show ?case by simp
qed

lemma one_entry:
  "distinct (map f xs) \<Longrightarrow> k \<in> set (map f xs) \<Longrightarrow> length (filter (\<lambda>y. f y = k) xs) = 1"
proof (induction xs)
  case Nil
  then show ?case by simp
next
  case (Cons x xs)
  show ?case
  proof (cases "f x = k")
    case True
    then have "filter (\<lambda>y. f y = k) xs = []" using Cons.prems by (auto simp: filter_empty_conv image_iff)
    then show ?thesis using True by simp
  next
    case False
    then show ?thesis using Cons by simp
  qed
qed

text \<open>
  Claim C1. When the week of the current snapshot is over, two calls of \<open>reset\<close> in
  immediate succession (both in the same new week) return \<open>rolled_over\<close> true and
  then false, the second changes nothing, and the history then holds exactly one entry
  of the closed week's \<open>week_start\<close>: the snapshot just closed, appended, when the
  history had none. However often and whenever \<open>reset\<close> is called again, the history
  only grows at its end (an entry in it is never changed) and never holds two entries
  of one \<open>week_start\<close>.
\<close>

theorem reset_idempotent:
  assumes inv: "distinct (weeks_of st)"
    and due: "snap_week_start (current st) \<noteq> w_start (windowFor_week tz t1)"
    and same: "w_start (windowFor_week tz t2) = w_start (windowFor_week tz t1)"
  shows "rolled_over (fst (reset tz t1 st))
       \<and> \<not> rolled_over (fst (reset tz t2 (snd (reset tz t1 st))))
       \<and> snd (reset tz t2 (snd (reset tz t1 st))) = snd (reset tz t1 st)
       \<and> length (filter (\<lambda>h. snap_week_start h = snap_week_start (current st))
                   (history (resets tz [t1, t2] st))) = 1
       \<and> (snap_week_start (current st) \<notin> set (weeks_of st) \<longrightarrow>
            history (resets tz [t1, t2] st) = history st @ [(current st)\<lparr> snap_reset_at := Some t1 \<rparr>])
       \<and> (\<forall>ts. prefix (history st) (history (resets tz ts st))
              \<and> distinct (weeks_of (resets tz ts st)))"
proof -
  define st1 where "st1 = snd (reset tz t1 st)"
  have c1: "snap_week_start (current st1) = w_start (windowFor_week tz t2)"
    unfolding st1_def using reset_new_week(2)[OF due] same by simp
  have r2: "reset tz t2 st1 = (\<lparr> rolled_over = False, res_week_start = w_start (windowFor_week tz t2) \<rparr>, st1)"
    using c1 by (rule reset_same_week)
  have two: "resets tz [t1, t2] st = st1"
    by (simp add: resets_def r2 flip: st1_def)
  have h1: "history st1 =
       (if snap_week_start (current st) \<in> set (weeks_of st) then history st
        else history st @ [(current st)\<lparr> snap_reset_at := Some t1 \<rparr>])"
    unfolding st1_def by (rule reset_new_week(3)[OF due])
  have d1: "distinct (weeks_of st1)" unfolding st1_def using inv by (rule reset_distinct)
  have m1: "snap_week_start (current st) \<in> set (weeks_of st1)"
    using h1 by (auto simp: weeks_of_def)
  have one: "length (filter (\<lambda>h. snap_week_start h = snap_week_start (current st)) (history st1)) = 1"
    using one_entry[of snap_week_start "history st1" "snap_week_start (current st)"] d1 m1
    by (simp add: weeks_of_def)
  show ?thesis
    using reset_new_week(1)[OF due] r2 one h1 resets_invariant[OF inv]
    by (simp add: two flip: st1_def)
qed

theorem reset_idempotent_witness:
  "distinct (weeks_of demo_engine)
   \<and> snap_week_start (current demo_engine) \<noteq> w_start (windowFor_week 0 1704672005000)
   \<and> w_start (windowFor_week 0 1704672006000) = w_start (windowFor_week 0 1704672005000)
   \<and> rolled_over (fst (reset 0 1704672005000 demo_engine))
   \<and> \<not> rolled_over (fst (reset 0 1704672006000 (snd (reset 0 1704672005000 demo_engine))))
   \<and> history (resets 0 [1704672005000, 1704672006000] demo_engine)
       = [ \<lparr> snap_week_start = 1704067200000, snap_week_end = 1704672000000,
             snap_entries = [], snap_reset_at = Some 1704672005000 \<rparr> ]"
proof -
  have inv: "distinct (weeks_of demo_engine)"
    by (simp add: weeks_of_def demo_engine_def)
  have due: "snap_week_start (current demo_engine) \<noteq> w_start (windowFor_week 0 1704672005000)"
    by (simp add: demo_engine_def windowFor_week_def dayMs_def)
  have same: "w_start (windowFor_week 0 1704672006000) = w_start (windowFor_week 0 1704672005000)"
    by (simp add: windowFor_week_def dayMs_def)
  note th = reset_idempotent[OF inv due same]
  have r1: "rolled_over (fst (reset 0 1704672005000 demo_engine))"
    by (rule th[THEN conjunct1])
  have r2: "\<not> rolled_over (fst (reset 0 1704672006000 (snd (reset 0 1704672005000 demo_engine))))"
    by (rule th[THEN conjunct2, THEN conjunct1])
  have h: "history (resets 0 [1704672005000, 1704672006000] demo_engine)
       = [ \<lparr> snap_week_start = 1704067200000, snap_week_end = 1704672000000,
             snap_entries = [], snap_reset_at = Some 1704672005000 \<rparr> ]"
    by (simp add: reset_def resets_def demo_engine_def windowFor_week_def dayMs_def Let_def)
  show ?thesis
    by (intro conjI inv due same r1 r2 h)
qed

subsection \<open>Ranking\<close>

lemma map_rank_enumerate:
  "map le_rank (map toEntry (enumerate n xs)) = [Suc n..<Suc (n + length xs)]"
proof (induction xs arbitrary: n)
  case Nil
  then show ?case by simp
next
  case (Cons x xs)
  obtain u s where x: "x = (u, s)" by (cases x)
  have "[Suc n..<Suc (n + length (x # xs))] = Suc n # [Suc (Suc n)..<Suc (Suc n + length xs)]"
    by (simp add: upt_rec)
  then show ?case using Cons[of "Suc n"] by (simp add: x toEntry_def)
qed

lemma rankAll_length: "length (rankAll tz users logs t) = length users"
  by (simp add: rankAll_def Let_def)

lemma rankAll_ranks: "map le_rank (rankAll tz users logs t) = [1..<Suc (length users)]"
  using map_rank_enumerate[of 0] by (simp add: rankAll_def Let_def)

lemma sortKey_le:
  "sortKey (u, s) \<le> sortKey (u', s') \<longleftrightarrow> s' < s \<or> (s = s' \<and> acc_id u \<le> acc_id u')"
  by (auto simp: sortKey_def less_eq_prod_def)

lemma before_toEntry:
  "before (toEntry (i, p)) (toEntry (j, q)) \<longleftrightarrow> sortKey p \<le> sortKey q"
  by (cases p; cases q) (auto simp: before_def toEntry_def sortKey_le)

lemma sorted_wrt_enumerate:
  "sorted_wrt (\<lambda>a b. P (snd a) (snd b)) (enumerate n xs) \<longleftrightarrow> sorted_wrt P xs"
proof (induction xs arbitrary: n)
  case Nil
  then show ?case by simp
next
  case (Cons x xs)
  have "(\<forall>b\<in>set (enumerate (Suc n) xs). P x (snd b)) \<longleftrightarrow> (\<forall>y\<in>set xs. P x y)"
    by (metis (no_types, lifting) image_iff map_snd_enumerate set_map)
  then show ?case using Cons[of "Suc n"] by simp
qed

lemma rankAll_sorted: "sorted_wrt before (rankAll tz users logs t)"
proof -
  define xs where "xs = sort_key sortKey (map (\<lambda>u. (u, scoreOf tz (windowFor_week tz t) logs u)) users)"
  have "sorted (map sortKey xs)" unfolding xs_def by (rule sorted_sort_key)
  then have "sorted_wrt (\<lambda>p q. sortKey p \<le> sortKey q) xs"
    by (simp add: sorted_map)
  then have "sorted_wrt (\<lambda>a b. sortKey (snd a) \<le> sortKey (snd b)) (enumerate 0 xs)"
    using sorted_wrt_enumerate[of "\<lambda>p q. sortKey p \<le> sortKey q" 0 xs] by simp
  moreover have "\<And>a b. before (toEntry a) (toEntry b) \<longleftrightarrow> sortKey (snd a) \<le> sortKey (snd b)"
    using before_toEntry by (metis prod.collapse)
  ultimately have "sorted_wrt (\<lambda>a b. before (toEntry a) (toEntry b)) (enumerate 0 xs)"
    by simp
  then show ?thesis by (simp add: rankAll_def Let_def sorted_wrt_map xs_def)
qed

lemma scoreOf_mset:
  assumes "mset logs' = mset logs"
  shows "scoreOf tz w logs' u = scoreOf tz w logs u"
proof -
  have "\<And>P. length (filter P logs') = length (filter P logs)"
    using assms by (metis mset_filter size_mset)
  then show ?thesis by (simp add: scoreOf_def)
qed

lemma sort_key_unique:
  assumes m: "mset xs = mset ys" and d: "distinct (map f xs)"
  shows "sort_key f xs = sort_key f ys"
proof -
  have dy: "distinct (map f ys)"
    using m d by (metis mset_eq_imp_distinct_iff mset_map)
  have s: "set xs = set ys" using m by (rule mset_eq_setD)
  have "map f (sort_key f xs) = map f (sort_key f ys)"
  proof (rule sorted_distinct_set_unique)
    show "sorted (map f (sort_key f xs))" by (rule sorted_sort_key)
    show "sorted (map f (sort_key f ys))" by (rule sorted_sort_key)
    show "distinct (map f (sort_key f xs))"
      using d by (metis distinct_map distinct_sort set_sort)
    show "distinct (map f (sort_key f ys))"
      using dy by (metis distinct_map distinct_sort set_sort)
    show "set (map f (sort_key f xs)) = set (map f (sort_key f ys))"
      using s by simp
  qed
  moreover have "inj_on f (set (sort_key f xs) \<union> set (sort_key f ys))"
    using d s by (simp add: distinct_map)
  ultimately show ?thesis by (rule map_inj_on)
qed

lemma rankAll_permutation:
  assumes u: "mset users' = mset users" and l: "mset logs' = mset logs"
    and d: "distinct (map acc_id users)"
  shows "rankAll tz users' logs' t = rankAll tz users logs t"
proof -
  define w where "w = windowFor_week tz t"
  define sc where "sc = (\<lambda>u. (u, scoreOf tz w logs u))"
  have sc': "(\<lambda>u. (u, scoreOf tz w logs' u)) = sc"
    unfolding sc_def using scoreOf_mset[OF l] by simp
  have m: "mset (map sc users') = mset (map sc users)" using u by simp
  have du: "distinct (map acc_id users')"
    using u d by (metis mset_eq_imp_distinct_iff mset_map)
  have eq: "map snd (map sortKey (map sc users')) = map acc_id users'"
    by (simp add: sc_def sortKey_def)
  have "distinct (map snd (map sortKey (map sc users')))"
    unfolding eq by (rule du)
  then have "distinct (map sortKey (map sc users'))"
    using distinct_map[of snd "map sortKey (map sc users')"] by blast
  then have "sort_key sortKey (map sc users') = sort_key sortKey (map sc users)"
    using m by (intro sort_key_unique)
  then show ?thesis
    by (simp add: rankAll_def Let_def sc' flip: w_def sc_def)
qed

lemma rankAll_scores:
  "e \<in> set (rankAll tz users logs t) \<Longrightarrow>
     \<exists>u\<in>set users. le_user_id e = acc_id u \<and> le_name e = acc_name u
        \<and> le_score e = scoreOf tz (windowFor_week tz t) logs u"
proof -
  assume "e \<in> set (rankAll tz users logs t)"
  then obtain i p where p: "(i, p) \<in> set (enumerate 0 (sort_key sortKey (map (\<lambda>u. (u, scoreOf tz (windowFor_week tz t) logs u)) users)))"
    and e: "e = toEntry (i, p)"
    by (auto simp: rankAll_def Let_def)
  have "p \<in> set (sort_key sortKey (map (\<lambda>u. (u, scoreOf tz (windowFor_week tz t) logs u)) users))"
    using p by (auto simp: in_set_enumerate_eq simp del: set_sort)
  then have "p \<in> set (map (\<lambda>u. (u, scoreOf tz (windowFor_week tz t) logs u)) users)"
    by (simp only: set_sort)
  then obtain u where "u \<in> set users" "p = (u, scoreOf tz (windowFor_week tz t) logs u)" by auto
  then show ?thesis using e by (auto simp: toEntry_def)
qed

lemma slice_upt: "take l (drop k [a..<b]) = [a + k..<min (a + k + l) b]"
proof (cases "a + k + l \<le> b")
  case True
  then show ?thesis by (simp add: drop_upt take_upt min_def del: upt_Suc)
next
  case False
  then have "length [a + k..<b] \<le> l" by simp
  then have "take l [a + k..<b] = [a + k..<b]" by (rule take_all)
  then show ?thesis using False by (simp add: drop_upt min_def del: upt_Suc)
qed

lemma slice_ranks:
  "map le_rank (take limit (drop offset (rankAll tz users logs t)))
     = [Suc offset..<Suc (min (offset + limit) (length users))]"
proof -
  have "map le_rank (take limit (drop offset (rankAll tz users logs t)))
      = take limit (drop offset [1..<Suc (length users)])"
    by (simp only: take_map[symmetric] drop_map[symmetric] rankAll_ranks)
  also have "\<dots> = [Suc offset..<Suc (min (offset + limit) (length users))]"
    using slice_upt[of limit offset 1 "Suc (length users)"] by (simp add: min_def del: upt_Suc)
  finally show ?thesis .
qed

lemma map_users_enumerate:
  "map (\<lambda>e. (le_user_id e, le_score e)) (map toEntry (enumerate n xs))
     = map (\<lambda>p. (acc_id (fst p), snd p)) xs"
proof (induction xs arbitrary: n)
  case Nil
  then show ?case by simp
next
  case (Cons x xs)
  obtain u s where x: "x = (u, s)" by (cases x)
  show ?case using Cons[of "Suc n"] by (simp add: x toEntry_def)
qed

lemma rankAll_scored:
  "mset (map (\<lambda>e. (le_user_id e, le_score e)) (rankAll tz users logs t))
     = mset (map (\<lambda>u. (acc_id u, scoreOf tz (windowFor_week tz t) logs u)) users)"
proof -
  define sc where "sc = map (\<lambda>u. (u, scoreOf tz (windowFor_week tz t) logs u)) users"
  have "map (\<lambda>e. (le_user_id e, le_score e)) (rankAll tz users logs t)
      = map (\<lambda>p. (acc_id (fst p), snd p)) (sort_key sortKey sc)"
    unfolding rankAll_def Let_def sc_def by (rule map_users_enumerate)
  then have "mset (map (\<lambda>e. (le_user_id e, le_score e)) (rankAll tz users logs t))
      = image_mset (\<lambda>p. (acc_id (fst p), snd p)) (mset sc)"
    by simp
  also have "\<dots> = mset (map (\<lambda>u. (acc_id u, scoreOf tz (windowFor_week tz t) logs u)) users)"
    by (simp add: sc_def multiset.map_comp comp_def)
  finally show ?thesis .
qed

lemma rankAll_users:
  "mset (map le_user_id (rankAll tz users logs t)) = mset (map acc_id users)"
proof -
  have "image_mset fst (mset (map (\<lambda>e. (le_user_id e, le_score e)) (rankAll tz users logs t)))
      = image_mset fst (mset (map (\<lambda>u. (acc_id u, scoreOf tz (windowFor_week tz t) logs u)) users))"
    by (simp only: rankAll_scored)
  then show ?thesis by (simp add: multiset.map_comp comp_def)
qed

lemma cw_entries: "snap_entries (computeWeekly tz users logs t limit offset)
           = take limit (drop offset (rankAll tz users logs t))"
  unfolding computeWeekly_def Let_def by simp

lemma cw_perm:
  assumes d: "distinct (map acc_id users)" and "mset users' = mset users" and "mset logs' = mset logs"
  shows "computeWeekly tz users' logs' t limit offset = computeWeekly tz users logs t limit offset"
  unfolding computeWeekly_def Let_def
  using rankAll_permutation[OF assms(2,3,1), of tz t] by simp

lemma cw_ranks: "map le_rank (snap_entries (computeWeekly tz users logs t limit offset))
           = [Suc offset..<Suc (min (offset + limit) (length users))]"
  unfolding cw_entries by (rule slice_ranks)

text \<open>
  Claim C2. For users of distinct ids, the ranked list holds every one of the \<open>N\<close>
  scored users once, each with its score, and the ranks that \<open>computeWeekly\<close> assigns
  to them are 1, 2, ..., \<open>N\<close> in the order of the entries: a permutation of \<open>1..N\<close>
  with no gap and no duplicate. The entries are sorted by score descending, ties by
  user id ascending. The slice is cut out of the ranked list, so its ranks are
  \<open>offset + 1\<close> onwards. The output is a function of the logs and users, whatever
  order the stores return them in.
\<close>

theorem leaderboard_ranks:
  assumes d: "distinct (map acc_id users)"
  shows "mset (map le_user_id (rankAll tz users logs t)) = mset (map acc_id users)
       \<and> distinct (map le_user_id (rankAll tz users logs t))
       \<and> mset (map (\<lambda>e. (le_user_id e, le_score e)) (rankAll tz users logs t))
           = mset (map (\<lambda>u. (acc_id u, scoreOf tz (windowFor_week tz t) logs u)) users)
       \<and> map le_rank (rankAll tz users logs t) = [1..<Suc (length users)]
       \<and> sorted_wrt before (rankAll tz users logs t)
       \<and> (\<forall>e\<in>set (rankAll tz users logs t). \<exists>u\<in>set users.
              le_user_id e = acc_id u \<and> le_score e = scoreOf tz (windowFor_week tz t) logs u)
       \<and> snap_entries (computeWeekly tz users logs t limit offset)
           = take limit (drop offset (rankAll tz users logs t))
       \<and> map le_rank (snap_entries (computeWeekly tz users logs t limit offset))
           = [Suc offset..<Suc (min (offset + limit) (length users))]
       \<and> (\<forall>users' logs'. mset users' = mset users \<and> mset logs' = mset logs \<longrightarrow>
              computeWeekly tz users' logs' t limit offset = computeWeekly tz users logs t limit offset)"
proof (intro conjI allI impI ballI)
  show "mset (map le_user_id (rankAll tz users logs t)) = mset (map acc_id users)"
    by (rule rankAll_users)
  show "distinct (map le_user_id (rankAll tz users logs t))"
    using d rankAll_users[of tz users logs t] by (metis mset_eq_imp_distinct_iff)
  show "mset (map (\<lambda>e. (le_user_id e, le_score e)) (rankAll tz users logs t))
           = mset (map (\<lambda>u. (acc_id u, scoreOf tz (windowFor_week tz t) logs u)) users)"
    by (rule rankAll_scored)
  show "map le_rank (rankAll tz users logs t) = [1..<Suc (length users)]"
    by (rule rankAll_ranks)
  show "sorted_wrt before (rankAll tz users logs t)"
    by (rule rankAll_sorted)
  show "\<exists>u\<in>set users. le_user_id e = acc_id u \<and> le_score e = scoreOf tz (windowFor_week tz t) logs u"
    if "e \<in> set (rankAll tz users logs t)" for e
    using rankAll_scores[OF that] by blast
  show "snap_entries (computeWeekly tz users logs t limit offset)
           = take limit (drop offset (rankAll tz users logs t))"
    by (rule cw_entries)
  show "map le_rank (snap_entries (computeWeekly tz users logs t limit offset))
           = [Suc offset..<Suc (min (offset + limit) (length users))]"
    by (rule cw_ranks)
  show "computeWeekly tz users' logs' t limit offset = computeWeekly tz users logs t limit offset"
    if "mset users' = mset users \<and> mset logs' = mset logs" for users' logs'
    using cw_perm[OF d] that by blast
qed

text \<open>The week of Wednesday 3 January 2024 runs from Monday 1 to Monday 8 January.\<close>

lemma week_of_a_wednesday:
  "windowFor_week 0 1704240005000 = \<lparr> w_start = 1704067200000, w_end = 1704672000000 \<rparr>"
  by (simp add: windowFor_week_def dayMs_def)

lemma demo_scores:
  "map (\<lambda>u. (u, scoreOf 0 (windowFor_week 0 1704585600000) demo_habit_logs u)) demo_accounts =
     [ (\<lparr> acc_id = ''u3'', acc_name = ''Cy'', acc_avatar_url = None \<rparr>, 3),
       (\<lparr> acc_id = ''u2'', acc_name = ''Bo'', acc_avatar_url = None \<rparr>, 5),
       (\<lparr> acc_id = ''u1'', acc_name = ''Al'', acc_avatar_url = None \<rparr>, 5) ]"
  by (simp add: demo_accounts_def scoreOf_def demo_habit_logs_def logged_def in_window_def
        windowFor_week_def dayMs_def)

lemma demo_sorted:
  "sort_key sortKey
     [ (\<lparr> acc_id = ''u3'', acc_name = ''Cy'', acc_avatar_url = None \<rparr>, 3),
       (\<lparr> acc_id = ''u2'', acc_name = ''Bo'', acc_avatar_url = None \<rparr>, 5),
       (\<lparr> acc_id = ''u1'', acc_name = ''Al'', acc_avatar_url = None \<rparr>, 5) ] =
     [ (\<lparr> acc_id = ''u1'', acc_name = ''Al'', acc_avatar_url = None \<rparr>, 5),
       (\<lparr> acc_id = ''u2'', acc_name = ''Bo'', acc_avatar_url = None \<rparr>, 5),
       (\<lparr> acc_id = ''u3'', acc_name = ''Cy'', acc_avatar_url = None \<rparr>, 3) ]"
  by (simp add: sortKey_def less_eq_prod_def less_eq_char_def less_char_def)

lemma demo_ranking:
  "rankAll 0 demo_accounts demo_habit_logs 1704585600000 =
     [ \<lparr> le_user_id = ''u1'', le_name = ''Al'', le_avatar_url = None, le_score = 5, le_rank = 1 \<rparr>,
       \<lparr> le_user_id = ''u2'', le_name = ''Bo'', le_avatar_url = None, le_score = 5, le_rank = 2 \<rparr>,
       \<lparr> le_user_id = ''u3'', le_name = ''Cy'', le_avatar_url = None, le_score = 3, le_rank = 3 \<rparr> ]"
  unfolding rankAll_def Let_def demo_scores demo_sorted
  by (simp add: toEntry_def enumerate_eq_zip upt_rec)

theorem leaderboard_ranks_witness:
  "distinct (map acc_id demo_accounts)
   \<and> map le_rank (rankAll 0 demo_accounts demo_habit_logs 1704585600000) = [1, 2, 3]
   \<and> map le_user_id (rankAll 0 demo_accounts demo_habit_logs 1704585600000) = [''u1'', ''u2'', ''u3'']
   \<and> map le_score (rankAll 0 demo_accounts demo_habit_logs 1704585600000) = [5, 5, 3]
   \<and> map le_rank (snap_entries (computeWeekly 0 demo_accounts demo_habit_logs 1704585600000 2 1)) = [2, 3]
   \<and> computeWeekly 0 (rev demo_accounts) (rev demo_habit_logs) 1704585600000 2 1
       = computeWeekly 0 demo_accounts demo_habit_logs 1704585600000 2 1"
proof -
  have d: "distinct (map acc_id demo_accounts)"
    by (simp add: demo_accounts_def)
  note th = leaderboard_ranks[OF d, of 0 demo_habit_logs 1704585600000 2 1]
  have u: "[Suc 1..<Suc (min (1 + 2) (length demo_accounts))] = [2, 3]"
    by (simp add: demo_accounts_def upt_rec)
  have r: "map le_rank (snap_entries (computeWeekly 0 demo_accounts demo_habit_logs 1704585600000 2 1)) = [2, 3]"
    by (rule trans[OF th[THEN conjunct2, THEN conjunct2, THEN conjunct2, THEN conjunct2,
          THEN conjunct2, THEN conjunct2, THEN conjunct2, THEN conjunct1] u])
  have m: "mset (rev demo_accounts) = mset demo_accounts \<and> mset (rev demo_habit_logs) = mset demo_habit_logs"
    by simp
  have p: "computeWeekly 0 (rev demo_accounts) (rev demo_habit_logs) 1704585600000 2 1
       = computeWeekly 0 demo_accounts demo_habit_logs 1704585600000 2 1"
    by (rule th[THEN conjunct2, THEN conjunct2, THEN conjunct2, THEN conjunct2, THEN conjunct2,
          THEN conjunct2, THEN conjunct2, THEN conjunct2, THEN spec, THEN spec, THEN mp, OF m])
  have k: "map le_rank (rankAll 0 demo_accounts demo_habit_logs 1704585600000) = [1, 2, 3]"
    "map le_user_id (rankAll 0 demo_accounts demo_habit_logs 1704585600000) = [''u1'', ''u2'', ''u3'']"
    "map le_score (rankAll 0 demo_accounts demo_habit_logs 1704585600000) = [5, 5, 3]"
    unfolding demo_ranking by simp_all
  show ?thesis
    by (intro conjI d r p k)
qed

end
